theory Spec2Isabelle
  imports Complex_Main "HOL-Library.Multiset"
begin

section \<open>Python values\<close>

text \<open>
  A Python \<open>str\<close> is a sequence of Unicode code points; it is modelled as a list of
  natural numbers, one per code point, so that \<open>len\<close>, slices and the whitespace
  classification count what Python counts. \<open>str\<close> turns an Isabelle string literal
  into such a list. In BM25, in the RRF fusion and in the concept graph a Python
  \<open>float\<close> is modelled by \<open>real\<close>, with exact arithmetic; \<open>_cosine\<close> and its callers,
  where rounding, overflow and NaN decide what is returned, use the floats of the
  section on Python floats.
\<close>

type_synonym pystr = "nat list"

definition str :: "string \<Rightarrow> pystr" where
  "str s = map of_char s"

datatype py_error = ZeroDivisionError | ValueError | IndexError | EmbeddingFailure

text \<open>\<open>a / b\<close> on floats raises \<open>ZeroDivisionError\<close> when \<open>b\<close> is zero.\<close>

definition py_div :: "real \<Rightarrow> real \<Rightarrow> py_error + real" where
  "py_div a b = (if b = 0 then Inl ZeroDivisionError else Inr (a / b))"

section \<open>Python string operations\<close>

text \<open>
  The code points for which \<open>str.isspace\<close> holds; \<open>str.split()\<close> and \<open>str.strip()\<close>
  use this class.
\<close>

definition is_space :: "nat \<Rightarrow> bool" where
  "is_space c =
     ((9 \<le> c \<and> c \<le> 13) \<or> (28 \<le> c \<and> c \<le> 32) \<or> c = 133 \<or> c = 160 \<or> c = 5760
      \<or> (8192 \<le> c \<and> c \<le> 8202) \<or> c = 8232 \<or> c = 8233 \<or> c = 8239 \<or> c = 8287
      \<or> c = 12288)"

definition lstrip :: "pystr \<Rightarrow> pystr" where
  "lstrip s = dropWhile is_space s"

definition rstrip :: "pystr \<Rightarrow> pystr" where
  "rstrip s = rev (dropWhile is_space (rev s))"

text \<open>\<open>s.strip()\<close>.\<close>

definition strip :: "pystr \<Rightarrow> pystr" where
  "strip s = rstrip (lstrip s)"

text \<open>\<open>s.lstrip(chars)\<close> and \<open>s.strip(chars)\<close> for an explicit set of characters.\<close>

definition lstrip_chars :: "nat list \<Rightarrow> pystr \<Rightarrow> pystr" where
  "lstrip_chars cs s = dropWhile (\<lambda>c. c \<in> set cs) s"

definition strip_chars :: "nat list \<Rightarrow> pystr \<Rightarrow> pystr" where
  "strip_chars cs s = rev (dropWhile (\<lambda>c. c \<in> set cs) (rev (dropWhile (\<lambda>c. c \<in> set cs) s)))"

text \<open>\<open>s.split()\<close>: the maximal runs of characters that are not whitespace.\<close>

function py_split :: "pystr \<Rightarrow> pystr list" where
  "py_split [] = []"
| "py_split (c # cs) =
     (if is_space c then py_split cs
      else (c # takeWhile (\<lambda>x. \<not> is_space x) cs) # py_split (dropWhile (\<lambda>x. \<not> is_space x) cs))"
  by pat_completeness auto
termination
  by (relation "measure length") (auto simp: less_Suc_eq_le length_dropWhile_le)

text \<open>\<open>sep.join(xs)\<close>.\<close>

fun join :: "pystr \<Rightarrow> pystr list \<Rightarrow> pystr" where
  "join sep [] = []"
| "join sep [x] = x"
| "join sep (x # y # ys) = x @ sep @ join sep (y # ys)"

text \<open>\<open>s.split(sep)\<close> for a one-character separator: never empty.\<close>

fun split_on :: "nat \<Rightarrow> pystr \<Rightarrow> pystr list" where
  "split_on d [] = [[]]"
| "split_on d (c # cs) =
     (if c = d then [] # split_on d cs
      else (case split_on d cs of [] \<Rightarrow> [[c]] | l # ls \<Rightarrow> (c # l) # ls))"

text \<open>
  \<open>s.splitlines()\<close>: a line ends at \<open>\n\<close>, \<open>\r\<close>, \<open>\r\n\<close>, \<open>\v\<close>, \<open>\f\<close>, the separators
  \<open>0x1c\<close> to \<open>0x1e\<close>, \<open>0x85\<close>, \<open>0x2028\<close> and \<open>0x2029\<close>; a final line break adds no empty
  line.
\<close>

definition is_linebreak :: "nat \<Rightarrow> bool" where
  "is_linebreak c =
     ((10 \<le> c \<and> c \<le> 13) \<or> (28 \<le> c \<and> c \<le> 30) \<or> c = 133 \<or> c = 8232 \<or> c = 8233)"

fun splitlines_from :: "pystr \<Rightarrow> pystr \<Rightarrow> pystr list" where
  "splitlines_from cur [] = (if cur = [] then [] else [cur])"
| "splitlines_from cur [c] = (if is_linebreak c then [cur] else [cur @ [c]])"
| "splitlines_from cur (c # d # cs) =
     (if c = 13 \<and> d = 10 then cur # splitlines_from [] cs
      else if is_linebreak c then cur # splitlines_from [] (d # cs)
      else splitlines_from (cur @ [c]) (d # cs))"

definition splitlines :: "pystr \<Rightarrow> pystr list" where
  "splitlines s = splitlines_from [] s"

definition startswith :: "pystr \<Rightarrow> pystr \<Rightarrow> bool" where
  "startswith s p = (take (length p) s = p)"

text \<open>\<open>s.replace(old, "")\<close> for a non-empty \<open>old\<close>: every occurrence, left to right.\<close>

function remove_all :: "pystr \<Rightarrow> pystr \<Rightarrow> pystr" where
  "remove_all old [] = []"
| "remove_all old (c # cs) =
     (if old \<noteq> [] \<and> startswith (c # cs) old then remove_all old (drop (length old) (c # cs))
      else c # remove_all old cs)"
  by pat_completeness auto
termination
  by (relation "measure (\<lambda>(old, s). length s)") auto

text \<open>
  Slices: \<open>xs[:n]\<close> for an integer \<open>n\<close> (a negative \<open>n\<close> counts from the end) and
  \<open>xs[-n:]\<close> for a positive constant \<open>n\<close>.
\<close>

definition slice_to :: "int \<Rightarrow> 'a list \<Rightarrow> 'a list" where
  "slice_to n xs = (if 0 \<le> n then take (nat n) xs else take (length xs - nat (- n)) xs)"

definition last_n :: "nat \<Rightarrow> 'a list \<Rightarrow> 'a list" where
  "last_n n xs = drop (length xs - n) xs"

text \<open>
  A \<open>dict\<close> keeps its keys in insertion order, and assigning to a key that is present
  keeps the key's place: an association list with distinct keys.
\<close>

fun dict_get :: "('k \<times> 'v) list \<Rightarrow> 'k \<Rightarrow> 'v option" where
  "dict_get [] k = None"
| "dict_get ((k', v) # d) k = (if k' = k then Some v else dict_get d k)"

fun dict_set :: "('k \<times> 'v) list \<Rightarrow> 'k \<Rightarrow> 'v \<Rightarrow> ('k \<times> 'v) list" where
  "dict_set [] k v = [(k, v)]"
| "dict_set ((k', v') # d) k v = (if k' = k then (k, v) # d else (k', v') # dict_set d k v)"

text \<open>\<open>d.pop(k, None)\<close>.\<close>

definition dict_pop :: "('k \<times> 'v) list \<Rightarrow> 'k \<Rightarrow> ('k \<times> 'v) list" where
  "dict_pop d k = filter (\<lambda>kv. fst kv \<noteq> k) d"

text \<open>
  \<open>sorted(xs, key=f, reverse=True)\<close> and \<open>xs.sort(key=f, reverse=True)\<close>: descending by
  key, and stable (elements with equal keys keep their order).
\<close>

definition sorted_desc :: "('a \<Rightarrow> real) \<Rightarrow> 'a list \<Rightarrow> 'a list" where
  "sorted_desc f xs = sort_key (\<lambda>x. - f x) xs"

section \<open>Chunker\<close>

text \<open>The dataclass \<open>Chunk\<close>; its fields carry the prefix \<open>c_\<close>.\<close>

record Chunk =
  c_id :: pystr
  c_text :: pystr
  c_contextual_text :: pystr
  c_skill :: pystr
  c_file :: pystr
  c_file_path :: pystr
  c_section :: pystr
  c_domains :: "pystr list"

subsection \<open>Chunker._split_sections\<close>

text \<open>
  \<^verbatim>\<open>
    def _split_sections(self, text):
        pattern = re.compile(r"^(#{1,3} .+)$", re.MULTILINE)
        parts = pattern.split(text)
        if not parts:
            return [("main", text)]
        sections = []
        if parts[0].strip():
            sections.append(("intro", parts[0].strip()))
        for i in range(1, len(parts), 2):
            title = parts[i].lstrip("#").strip()
            body = parts[i + 1].strip() if i + 1 < len(parts) else ""
            if body:
                sections.append((title, body))
        return sections or [("main", text)]
  \<close>
  With \<open>re.MULTILINE\<close>, \<open>^\<close> matches at the start of the text and after each \<open>\n\<close>,
  \<open>$\<close> at the end of the text and before each \<open>\n\<close>, and \<open>.\<close> matches every character
  but \<open>\n\<close>. So a match of the pattern is a whole line (a maximal run without \<open>\n\<close>) made
  of one to three \<open>#\<close>, one space and at least one more character.
\<close>

definition is_heading :: "pystr \<Rightarrow> bool" where
  "is_heading l =
     (let n = length (takeWhile (\<lambda>c. c = 35) l)
      in 1 \<le> n \<and> n \<le> 3 \<and> n + 2 \<le> length l \<and> l ! n = 32)"

text \<open>
  \<open>pattern.split(text)\<close>, the pattern having one group: the text before the first match,
  then for each match the matched line and the text up to the next match (or the end).
  \<open>heading_parts acc ls\<close> walks the lines \<open>ls\<close> of the text; \<open>acc\<close> is the text read since
  the last match.
\<close>

fun heading_parts :: "pystr \<Rightarrow> pystr list \<Rightarrow> pystr list" where
  "heading_parts acc [] = [acc]"
| "heading_parts acc [l] = (if is_heading l then [acc, l, []] else [acc @ l])"
| "heading_parts acc (l # l' # ls) =
     (if is_heading l then acc # l # heading_parts [10] (l' # ls)
      else heading_parts (acc @ l @ [10]) (l' # ls))"

definition re_split_headings :: "pystr \<Rightarrow> pystr list" where
  "re_split_headings t = heading_parts [] (split_on 10 t)"

text \<open>The loop over \<open>range(1, len(parts), 2)\<close>, on \<open>parts[1:]\<close>.\<close>

fun section_pairs :: "pystr list \<Rightarrow> (pystr \<times> pystr) list" where
  "section_pairs [] = []"
| "section_pairs [t] = []"
| "section_pairs (t # b # rest) =
     (let title = strip (lstrip_chars [35] t); body = strip b
      in (if body \<noteq> [] then [(title, body)] else []) @ section_pairs rest)"

definition split_sections :: "pystr \<Rightarrow> (pystr \<times> pystr) list" where
  "split_sections t =
     (let parts = re_split_headings t
      in if parts = [] then [(str ''main'', t)]
         else let sections =
                (if strip (hd parts) \<noteq> [] then [(str ''intro'', strip (hd parts))] else [])
                @ section_pairs (tl parts)
              in if sections = [] then [(str ''main'', t)] else sections)"

subsection \<open>Chunker._split_long\<close>

text \<open>
  \<^verbatim>\<open>
    def _split_long(self, text):
        words = text.split()
        if len(words) <= self.max_tokens:
            return [text] if text.strip() else []
        chunks, current = [], []
        for word in words:
            current.append(word)
            if len(current) >= self.max_tokens:
                chunks.append(" ".join(current))
                current = current[-50:]  # 50-token overlap
        if current:
            chunks.append(" ".join(current))
        return chunks
  \<close>
\<close>

fun window_loop :: "int \<Rightarrow> pystr list \<Rightarrow> pystr list \<Rightarrow> pystr list \<Rightarrow> pystr list \<times> pystr list" where
  "window_loop m [] chunks current = (chunks, current)"
| "window_loop m (w # ws) chunks current =
     (let cur = current @ [w]
      in if m \<le> int (length cur) then window_loop m ws (chunks @ [join [32] cur]) (last_n 50 cur)
         else window_loop m ws chunks cur)"

definition split_long :: "int \<Rightarrow> pystr \<Rightarrow> pystr list" where
  "split_long m t =
     (let ws = py_split t
      in if int (length ws) \<le> m then (if strip t \<noteq> [] then [t] else [])
         else (case window_loop m ws [] [] of
                 (chunks, current) \<Rightarrow>
                   if current \<noteq> [] then chunks @ [join [32] current] else chunks))"

subsection \<open>Chunker._extract_context\<close>

text \<open>
  \<^verbatim>\<open>
    def _extract_context(self, text, filename, skill):
        lines = text.splitlines()[:8]
        for line in lines:
            if line.startswith("description:"):
                return line.replace("description:", "").strip().strip("'\"")
        return f"{skill} \<emdash> {filename}"
  \<close>
  (the dash of the last line is U+2014, code point 8212).
\<close>

fun first_description :: "pystr list \<Rightarrow> pystr option" where
  "first_description [] = None"
| "first_description (l # ls) =
     (if startswith l (str ''description:'')
      then Some (strip_chars [39, 34] (strip (remove_all (str ''description:'') l)))
      else first_description ls)"

definition extract_context :: "pystr \<Rightarrow> pystr \<Rightarrow> pystr \<Rightarrow> pystr" where
  "extract_context t filename sk =
     (case first_description (take 8 (splitlines t)) of
        Some d \<Rightarrow> d
      | None \<Rightarrow> sk @ [32, 8212, 32] @ filename)"

subsection \<open>Chunker.chunk_file\<close>

text \<open>
  \<^verbatim>\<open>
    def chunk_file(self, path, skill_name, domains):
        text = path.read_text(encoding="utf-8", errors="ignore")
        sections = self._split_sections(text)
        chunks = []
        file_context = self._extract_context(text, path.name, skill_name)
        for section_title, section_body in sections:
            for sub in self._split_long(section_body):
                raw_id = f"{skill_name}/{path.name}/{section_title}/{sub[:50]}"
                chunk_id = hashlib.md5(raw_id.encode()).hexdigest()
                contextual = f"[{skill_name} | {path.name}]\n{file_context}\n\n{sub}"
                chunks.append(Chunk(id=chunk_id, text=sub, contextual_text=contextual,
                    skill=skill_name, file=path.name, file_path=str(path),
                    section=section_title, domains=domains))
        return chunks
  \<close>
  \<open>hashlib.md5(s.encode()).hexdigest()\<close> is a library function and enters as the parameter
  \<open>md5_hex\<close>. The file is given by its name, its path as a string and the text read from
  it; a failing read is a matter of the caller (\<open>index\<close>).
\<close>

definition raw_id :: "pystr \<Rightarrow> pystr \<Rightarrow> pystr \<Rightarrow> pystr \<Rightarrow> pystr" where
  "raw_id skill_name name section_title sub =
     skill_name @ [47] @ name @ [47] @ section_title @ [47] @ take 50 sub"

definition make_chunk ::
  "(pystr \<Rightarrow> pystr) \<Rightarrow> pystr \<Rightarrow> pystr \<Rightarrow> pystr \<Rightarrow> pystr list \<Rightarrow> pystr \<Rightarrow> pystr \<Rightarrow> pystr \<Rightarrow> Chunk" where
  "make_chunk md5_hex name path skill_name doms file_context section_title sub =
     \<lparr> c_id = md5_hex (raw_id skill_name name section_title sub),
       c_text = sub,
       c_contextual_text =
         [91] @ skill_name @ str '' | '' @ name @ [93, 10] @ file_context @ [10, 10] @ sub,
       c_skill = skill_name,
       c_file = name,
       c_file_path = path,
       c_section = section_title,
       c_domains = doms \<rparr>"

definition chunk_file ::
  "(pystr \<Rightarrow> pystr) \<Rightarrow> int \<Rightarrow> pystr \<Rightarrow> pystr \<Rightarrow> pystr \<Rightarrow> pystr list \<Rightarrow> pystr \<Rightarrow> Chunk list" where
  "chunk_file md5_hex max_tokens name path skill_name doms t =
     (let sections = split_sections t;
          file_context = extract_context t name skill_name
      in concat (map (\<lambda>(section_title, section_body).
                   map (make_chunk md5_hex name path skill_name doms file_context section_title)
                       (split_long max_tokens section_body))
                 sections))"

subsection \<open>Facts about the string operations\<close>

lemma str_simps: "str [] = []" "str (c # cs) = of_char c # str cs"
  by (simp_all add: str_def)

lemma split_on_nonempty: "split_on d t \<noteq> []"
  by (induction t) (auto split: list.splits)

lemma join_split_on: "join [d] (split_on d t) = t"
proof (induction t)
  case Nil
  then show ?case by simp
next
  case (Cons c cs)
  obtain l ls where e: "split_on d cs = l # ls"
    using split_on_nonempty [of d cs] by (cases "split_on d cs") auto
  show ?case
  proof (cases "c = d")
    case True
    with e Cons show ?thesis by simp
  next
    case False
    with e Cons show ?thesis by (cases ls) auto
  qed
qed

lemma in_set_dropWhile: "x \<in> set xs \<Longrightarrow> \<not> P x \<Longrightarrow> x \<in> set (dropWhile P xs)"
  by (induction xs) auto

lemma strip_nonempty: "\<exists>c\<in>set t. \<not> is_space c \<Longrightarrow> strip t \<noteq> []"
proof -
  assume "\<exists>c\<in>set t. \<not> is_space c"
  then obtain c where c: "c \<in> set t" "\<not> is_space c" by blast
  then have "c \<in> set (rev (dropWhile is_space t))"
    by (simp add: in_set_dropWhile)
  then have "c \<in> set (dropWhile is_space (rev (dropWhile is_space t)))"
    using c(2) by (rule in_set_dropWhile)
  then have "dropWhile is_space (rev (dropWhile is_space t)) \<noteq> []"
    by (metis empty_iff list.set(1))
  then show ?thesis
    unfolding strip_def lstrip_def rstrip_def by (simp only: rev_is_Nil_conv not_False_eq_True)
qed

subsection \<open>Sections of a file without headings\<close>

lemma heading_parts_no_heading:
  "ls \<noteq> [] \<Longrightarrow> \<forall>l\<in>set ls. \<not> is_heading l \<Longrightarrow> heading_parts acc ls = [acc @ join [10] ls]"
  by (induction acc ls rule: heading_parts.induct) auto

text \<open>
  C1. The claim: a file whose text has a character that is not whitespace and no heading
  line of level 1 to 3 gives exactly one section, titled \<open>main\<close>, whose body is the text.
  What \<open>_split_sections\<close> computes for every such text is one section titled \<open>intro\<close>
  whose body is the stripped text: \<open>pattern.split\<close> returns \<open>[text]\<close>, never the empty
  list, so the guard \<open>if not parts\<close> that returns \<open>("main", text)\<close> is not taken, and the
  text counts as the part before the first heading.
\<close>

theorem no_heading_gives_intro_section:
  assumes "\<exists>c\<in>set t. \<not> is_space c"
    and "\<forall>l\<in>set (split_on 10 t). \<not> is_heading l"
  shows "split_sections t = [(str ''intro'', strip t)]"
proof -
  have "re_split_headings t = [t]"
    using heading_parts_no_heading [OF split_on_nonempty assms(2), of "[]"]
    by (simp add: re_split_headings_def join_split_on)
  then show ?thesis
    using strip_nonempty [OF assms(1)] by (simp add: split_sections_def)
qed

theorem no_heading_gives_intro_section_witness:
  "split_sections (str ''hello'') = [(str ''intro'', str ''hello'')]
   \<and> split_sections (str ''hello'') \<noteq> [(str ''main'', str ''hello'')]"
proof -
  have a: "\<exists>c\<in>set (str ''hello''). \<not> is_space c"
    by (simp add: str_def is_space_def)
  have b: "\<forall>l\<in>set (split_on 10 (str ''hello'')). \<not> is_heading l"
    by (simp add: str_def is_heading_def)
  have c: "strip (str ''hello'') = str ''hello''"
    by (simp add: str_def strip_def lstrip_def rstrip_def is_space_def)
  show ?thesis
    using no_heading_gives_intro_section [OF a b] by (simp add: c) (simp add: str_def)
qed


subsection \<open>Windows of a long section\<close>







lemma window_loop_short:
  "int (length current + length ws) < m \<Longrightarrow> window_loop m ws chunks current = (chunks, current @ ws)"
  by (induction ws arbitrary: current) (auto simp: Let_def)











subsection \<open>Chunk ids\<close>

lemma chunk_file_fields:
  assumes "c \<in> set (chunk_file md5_hex m name path sk doms t)"
  shows "c_id c = md5_hex (raw_id sk name (c_section c) (c_text c))
         \<and> c_skill c = sk \<and> c_file c = name"
  using assms by (auto simp: chunk_file_def make_chunk_def Let_def)

text \<open>
  C9, as the code has it. The id of every chunk that \<open>chunk_file\<close> produces is the MD5 hex
  digest of the string \<open>skill/file/section/first 50 characters of the body\<close>, so two
  chunks (of one run or of two) that agree on the skill, the file name, the section
  title and the first 50 characters of the body have the same id. The ids of one pass
  are not always distinct: see the counterexample below.
\<close>

theorem chunk_id_deterministic:
  "(\<forall>c\<in>set (chunk_file md5_hex m name path sk doms t).
      c_id c = md5_hex (c_skill c @ [47] @ c_file c @ [47] @ c_section c @ [47] @ take 50 (c_text c)))
   \<and> (\<forall>c\<in>set (chunk_file md5_hex m name path sk doms t).
       \<forall>c'\<in>set (chunk_file md5_hex m' name' path' sk' doms' t').
         c_skill c = c_skill c' \<and> c_file c = c_file c' \<and> c_section c = c_section c'
         \<and> take 50 (c_text c) = take 50 (c_text c') \<longrightarrow> c_id c = c_id c')"
proof -
  have k: "c_id c = md5_hex (c_skill c @ [47] @ c_file c @ [47] @ c_section c @ [47] @ take 50 (c_text c))"
    if "c \<in> set (chunk_file md5_hex n nm p s d x)" for c n nm p s d x
    using chunk_file_fields [OF that] by (simp add: raw_id_def)
  show ?thesis
  proof (intro conjI ballI impI)
    fix c assume "c \<in> set (chunk_file md5_hex m name path sk doms t)"
    then show "c_id c = md5_hex (c_skill c @ [47] @ c_file c @ [47] @ c_section c @ [47] @ take 50 (c_text c))"
      by (rule k)
  next
    fix c c'
    assume "c \<in> set (chunk_file md5_hex m name path sk doms t)"
      and "c' \<in> set (chunk_file md5_hex m' name' path' sk' doms' t')"
      and "c_skill c = c_skill c' \<and> c_file c = c_file c' \<and> c_section c = c_section c'
         \<and> take 50 (c_text c) = take 50 (c_text c')"
    then show "c_id c = c_id c'"
      using k [of c m name path sk doms t] k [of c' m' name' path' sk' doms' t'] by simp
  qed
qed

text \<open>
  A file with two sections of the same title and the same body:
  \<^verbatim>\<open>
    # A
    x
    # A
    x
  \<close>
\<close>

definition two_equal_sections :: pystr where
  "two_equal_sections = str ''# A'' @ [10] @ str ''x'' @ [10] @ str ''# A'' @ [10] @ str ''x''"

lemma split_sections_two_equal:
  "split_sections two_equal_sections = [(str ''A'', str ''x''), (str ''A'', str ''x'')]"
  by (simp add: two_equal_sections_def str_def split_sections_def re_split_headings_def
      is_heading_def strip_def lstrip_def rstrip_def lstrip_chars_def is_space_def Let_def)

lemma split_long_x: "split_long 400 (str ''x'') = [str ''x'']"
  by (simp add: str_def split_long_def strip_def lstrip_def rstrip_def is_space_def Let_def)

text \<open>
  Whatever the digest function, the two chunks of that file get the same id: the ids of
  the chunks of one \<open>index()\<close> pass are not unique.
\<close>

theorem chunk_ids_not_unique_counterexample:
  "\<forall>md5_hex. \<not> distinct (map c_id
      (chunk_file md5_hex 400 (str ''a.md'') (str ''s/a.md'') (str ''s'') [str ''s'']
         two_equal_sections))"
  by (simp add: chunk_file_def split_sections_two_equal split_long_x make_chunk_def Let_def)

theorem chunk_id_deterministic_witness:
  "map c_id (chunk_file (\<lambda>s. s) 400 (str ''a.md'') (str ''s/a.md'') (str ''s'') [str ''s'']
      two_equal_sections) = [str ''s/a.md/A/x'', str ''s/a.md/A/x'']"
proof -
  let ?cs = "chunk_file (\<lambda>s. s) 400 (str ''a.md'') (str ''s/a.md'') (str ''s'') [str ''s'']
      two_equal_sections"
  have e: "?cs \<noteq> []" "set ?cs \<noteq> {}"
    by (simp_all add: chunk_file_def split_sections_two_equal split_long_x Let_def)
  have "\<forall>c\<in>set ?cs. c_id c = c_skill c @ [47] @ c_file c @ [47] @ c_section c @ [47] @ take 50 (c_text c)"
    using chunk_id_deterministic [of "\<lambda>s. s" 400 "str ''a.md''" "str ''s/a.md''" "str ''s''" "[str ''s'']"
        two_equal_sections] by blast
  then show ?thesis
    by (simp add: chunk_file_def split_sections_two_equal split_long_x make_chunk_def Let_def)
      (simp add: str_def)
qed

section \<open>Python floats\<close>

text \<open>
  A Python \<open>float\<close> is an IEEE 754 binary64 value: a finite number, an infinity or NaN.
  The two zeros are one value here: they compare equal, both are false, and both raise
  \<open>ZeroDivisionError\<close> as a divisor.
\<close>

datatype pyfloat = Fin real | PInf | NInf | NaN

text \<open>\<open>x <= y\<close> and \<open>x < y\<close>: every comparison with NaN is false.\<close>

fun fle :: "pyfloat \<Rightarrow> pyfloat \<Rightarrow> bool" where
  "fle NaN y = False"
| "fle x NaN = False"
| "fle NInf y = True"
| "fle x PInf = True"
| "fle (Fin x) (Fin y) = (x \<le> y)"
| "fle x y = False"

definition fless :: "pyfloat \<Rightarrow> pyfloat \<Rightarrow> bool" where
  "fless x y = (fle x y \<and> \<not> fle y x)"

text \<open>\<open>bool(x)\<close>: false for zero only (NaN is true).\<close>

definition truthy :: "pyfloat \<Rightarrow> bool" where
  "truthy x = (x \<noteq> Fin 0)"

text \<open>
  The arithmetic of the Python runtime enters as two parameters: \<open>rnd\<close>, which rounds
  the exact result of an operation to a float, and \<open>fsum\<close>, the built-in \<open>sum\<close> over
  floats (its result depends on the order and, from Python 3.12 on, on a compensated
  summation). Multiplication, division and square root are the exact operation followed
  by the rounding, with the IEEE rules for infinities and NaN.
\<close>

record float_arith =
  rnd :: "real \<Rightarrow> pyfloat"
  fsum :: "pyfloat list \<Rightarrow> pyfloat"

fun fsgn :: "pyfloat \<Rightarrow> real" where
  "fsgn (Fin x) = sgn x"
| "fsgn PInf = 1"
| "fsgn NInf = - 1"
| "fsgn NaN = 0"

text \<open>\<open>x * y\<close>.\<close>

fun fmul :: "float_arith \<Rightarrow> pyfloat \<Rightarrow> pyfloat \<Rightarrow> pyfloat" where
  "fmul ar (Fin x) (Fin y) = rnd ar (x * y)"
| "fmul ar NaN y = NaN"
| "fmul ar x NaN = NaN"
| "fmul ar x y =
     (if fsgn x * fsgn y = 0 then NaN else if 0 < fsgn x * fsgn y then PInf else NInf)"

text \<open>
  \<open>x / y\<close> raises \<open>ZeroDivisionError\<close> when \<open>y\<close> is zero, whatever \<open>x\<close> is; \<open>fquot\<close> is
  the quotient for a divisor that is not zero.
\<close>

fun fquot :: "float_arith \<Rightarrow> pyfloat \<Rightarrow> pyfloat \<Rightarrow> pyfloat" where
  "fquot ar (Fin x) (Fin y) = rnd ar (x / y)"
| "fquot ar NaN y = NaN"
| "fquot ar x NaN = NaN"
| "fquot ar (Fin x) y = Fin 0"
| "fquot ar x (Fin y) = (if 0 < fsgn x * sgn y then PInf else NInf)"
| "fquot ar x y = NaN"

definition fdiv :: "float_arith \<Rightarrow> pyfloat \<Rightarrow> pyfloat \<Rightarrow> py_error + pyfloat" where
  "fdiv ar x y = (if y = Fin 0 then Inl ZeroDivisionError else Inr (fquot ar x y))"

text \<open>
  \<open>math.sqrt(x)\<close> raises \<open>ValueError\<close> for a negative \<open>x\<close>; \<open>sqrt_value\<close> is its value
  otherwise.
\<close>

fun sqrt_value :: "float_arith \<Rightarrow> pyfloat \<Rightarrow> pyfloat" where
  "sqrt_value ar (Fin x) = rnd ar (sqrt x)"
| "sqrt_value ar PInf = PInf"
| "sqrt_value ar x = NaN"

definition fsqrt :: "float_arith \<Rightarrow> pyfloat \<Rightarrow> py_error + pyfloat" where
  "fsqrt ar x = (if fless x (Fin 0) then Inl ValueError else Inr (sqrt_value ar x))"

text \<open>
  What is used of the arithmetic. A finite number is a float when rounding leaves it as
  it is. Rounding gives a float, never NaN, and is monotone; zero and the powers of two
  down to \<open>2\<^sup>-\<^sup>1\<^sup>0\<^sup>7\<^sup>4\<close>, the smallest positive binary64 number, are floats, and no
  float lies strictly between zero and \<open>2\<^sup>-\<^sup>1\<^sup>0\<^sup>7\<^sup>4\<close>. The sum of floats is a float; the
  sum of floats none of which is negative is not negative; the sum of zeros (and of
  nothing) is zero.
\<close>

definition is_float :: "float_arith \<Rightarrow> pyfloat \<Rightarrow> bool" where
  "is_float ar x = (case x of Fin v \<Rightarrow> rnd ar v = Fin v | _ \<Rightarrow> True)"

definition not_negative :: "pyfloat \<Rightarrow> bool" where
  "not_negative x = (\<not> fless x (Fin 0))"

definition float_laws :: "float_arith \<Rightarrow> bool" where
  "float_laws ar =
     ((\<forall>x. rnd ar x \<noteq> NaN)
      \<and> (\<forall>x y. x \<le> y \<longrightarrow> fle (rnd ar x) (rnd ar y))
      \<and> (\<forall>x. is_float ar (rnd ar x))
      \<and> is_float ar (Fin 0)
      \<and> (\<forall>k\<le>1074. is_float ar (Fin (1 / 2 ^ k)))
      \<and> (\<forall>v. is_float ar (Fin v) \<longrightarrow> v = 0 \<or> 1 / 2 ^ 1074 \<le> \<bar>v\<bar>)
      \<and> (\<forall>xs. list_all (is_float ar) xs \<longrightarrow> is_float ar (fsum ar xs))
      \<and> (\<forall>xs. list_all not_negative xs \<longrightarrow> not_negative (fsum ar xs))
      \<and> (\<forall>xs. list_all (\<lambda>x. x = Fin 0) xs \<longrightarrow> fsum ar xs = Fin 0))"

section \<open>MaestroEngine._cosine\<close>

text \<open>
  \<^verbatim>\<open>
    def _cosine(self, a, b):
        dot = sum(x * y for x, y in zip(a, b))
        na = math.sqrt(sum(x * x for x in a))
        nb = math.sqrt(sum(x * x for x in b))
        return dot / (na * nb) if na and nb else 0.0
  \<close>
  \<open>zip\<close> stops at the shorter vector; the norms run over each whole vector.
\<close>

definition dot :: "float_arith \<Rightarrow> pyfloat list \<Rightarrow> pyfloat list \<Rightarrow> pyfloat" where
  "dot ar a b = fsum ar (map (\<lambda>(x, y). fmul ar x y) (zip a b))"

definition sum_squares :: "float_arith \<Rightarrow> pyfloat list \<Rightarrow> pyfloat" where
  "sum_squares ar a = fsum ar (map (\<lambda>x. fmul ar x x) a)"

definition vnorm :: "float_arith \<Rightarrow> pyfloat list \<Rightarrow> py_error + pyfloat" where
  "vnorm ar a = fsqrt ar (sum_squares ar a)"

definition cosine :: "float_arith \<Rightarrow> pyfloat list \<Rightarrow> pyfloat list \<Rightarrow> py_error + pyfloat" where
  "cosine ar a b =
     (let d = dot ar a b
      in case vnorm ar a of
           Inl e \<Rightarrow> Inl e
         | Inr na \<Rightarrow>
             (case vnorm ar b of
                Inl e \<Rightarrow> Inl e
              | Inr nb \<Rightarrow>
                  if truthy na \<and> truthy nb then fdiv ar d (fmul ar na nb) else Inr (Fin 0)))"

text \<open>
  The computed norm, and the value \<open>_cosine\<close> returns, once it is known that neither
  \<open>math.sqrt\<close> nor the division raises.
\<close>

definition norm_value :: "float_arith \<Rightarrow> pyfloat list \<Rightarrow> pyfloat" where
  "norm_value ar a = sqrt_value ar (sum_squares ar a)"

definition cosine_value :: "float_arith \<Rightarrow> pyfloat list \<Rightarrow> pyfloat list \<Rightarrow> pyfloat" where
  "cosine_value ar a b =
     (if truthy (norm_value ar a) \<and> truthy (norm_value ar b)
      then fquot ar (dot ar a b) (fmul ar (norm_value ar a) (norm_value ar b))
      else Fin 0)"

subsection \<open>The divisor is never zero\<close>

lemma fold_invariant:
  "P s \<Longrightarrow> (\<And>x s. x \<in> set xs \<Longrightarrow> P s \<Longrightarrow> P (f x s)) \<Longrightarrow> P (fold f xs s)"
  by (induction xs arbitrary: s) auto

lemma float_lawsD:
  assumes "float_laws ar"
  shows "rnd ar x \<noteq> NaN"
    and "x \<le> y \<Longrightarrow> fle (rnd ar x) (rnd ar y)"
    and "is_float ar (rnd ar x)"
    and "rnd ar 0 = Fin 0"
    and "k \<le> 1074 \<Longrightarrow> rnd ar (1 / 2 ^ k) = Fin (1 / 2 ^ k)"
    and "rnd ar v = Fin v \<Longrightarrow> v = 0 \<or> 1 / 2 ^ 1074 \<le> \<bar>v\<bar>"
    and "list_all (is_float ar) xs \<Longrightarrow> is_float ar (fsum ar xs)"
    and "list_all not_negative xs \<Longrightarrow> not_negative (fsum ar xs)"
    and "list_all (\<lambda>x. x = Fin 0) xs \<Longrightarrow> fsum ar xs = Fin 0"
  using assms unfolding float_laws_def is_float_def pyfloat.case by blast+

lemma fle_Fin_iff: "fle (Fin x) y \<longleftrightarrow> y = PInf \<or> (\<exists>v. y = Fin v \<and> x \<le> v)"
  by (cases y) simp_all

lemma not_negative_iff: "not_negative x \<longleftrightarrow> x = NaN \<or> x = PInf \<or> (\<exists>v. x = Fin v \<and> 0 \<le> v)"
  by (cases x) (auto simp: not_negative_def fless_def)

lemma rnd_nonneg:
  assumes "float_laws ar" and "0 \<le> x"
  shows "not_negative (rnd ar x)"
proof -
  from assms(2) have "fle (rnd ar 0) (rnd ar x)" by (rule float_lawsD(2) [OF assms(1)])
  moreover have "rnd ar 0 = Fin 0" by (rule float_lawsD(4) [OF assms(1)])
  ultimately show ?thesis by (auto simp: fle_Fin_iff not_negative_iff)
qed

lemma square_float:
  assumes "float_laws ar"
  shows "is_float ar (fmul ar x x)" and "not_negative (fmul ar x x)"
proof -
  show "is_float ar (fmul ar x x)"
    using float_lawsD(3) [OF assms] by (cases x) (simp_all add: is_float_def)
  show "not_negative (fmul ar x x)"
    using rnd_nonneg [OF assms, of "v * v" for v]
    by (cases x) (simp_all add: not_negative_iff)
qed

lemma sum_squares_float:
  assumes "float_laws ar"
  shows "is_float ar (sum_squares ar a)" and "not_negative (sum_squares ar a)"
proof -
  have f: "list_all (is_float ar) (map (\<lambda>x. fmul ar x x) a)"
    and n: "list_all not_negative (map (\<lambda>x. fmul ar x x) a)"
    using square_float [OF assms] by (simp_all add: list_all_iff)
  from f show "is_float ar (sum_squares ar a)"
    unfolding sum_squares_def by (rule float_lawsD(7) [OF assms])
  from n show "not_negative (sum_squares ar a)"
    unfolding sum_squares_def by (rule float_lawsD(8) [OF assms])
qed

lemma vnorm_Inr:
  assumes "float_laws ar"
  shows "vnorm ar a = Inr (norm_value ar a)"
  using sum_squares_float(2) [OF assms, of a]
  by (simp add: vnorm_def fsqrt_def norm_value_def not_negative_def)

text \<open>
  A computed norm is zero, NaN, or at least \<open>2\<^sup>-\<^sup>5\<^sup>3\<^sup>7\<close>: it is the rounded square root
  of a float, and a positive float is at least \<open>2\<^sup>-\<^sup>1\<^sup>0\<^sup>7\<^sup>4\<close>.
\<close>

lemma sqrt_min: "sqrt (1 / 2 ^ 1074) = 1 / 2 ^ 537"
proof -
  have "(1 / 2 ^ 537 :: real) ^ 2 = 1 / 2 ^ 1074"
    by (simp add: power_divide power_mult [symmetric])
  moreover have "(0 :: real) \<le> 1 / 2 ^ 537" by simp
  ultimately show ?thesis
    by (metis real_sqrt_unique)
qed

lemma norm_value_cases:
  assumes "float_laws ar"
  shows "norm_value ar a = Fin 0 \<or> norm_value ar a = NaN
           \<or> fle (Fin (1 / 2 ^ 537)) (norm_value ar a)"
proof -
  note s = sum_squares_float [OF assms, of a]
  from s(2) consider "sum_squares ar a = NaN" | "sum_squares ar a = PInf"
    | v where "sum_squares ar a = Fin v" "0 \<le> v"
    by (auto simp: not_negative_iff)
  then show ?thesis
  proof cases
    case 1
    then show ?thesis by (simp add: norm_value_def)
  next
    case 2
    then show ?thesis by (simp add: norm_value_def)
  next
    case 3
    from s(1) 3(1) have "rnd ar v = Fin v"
      by (simp add: is_float_def)
    then have "v = 0 \<or> 1 / 2 ^ 1074 \<le> \<bar>v\<bar>"
      by (rule float_lawsD(6) [OF assms])
    then show ?thesis
    proof
      assume "v = 0"
      with 3(1) show ?thesis
        by (simp add: norm_value_def float_lawsD(4) [OF assms])
    next
      assume "1 / 2 ^ 1074 \<le> \<bar>v\<bar>"
      with 3(2) have "sqrt (1 / 2 ^ 1074) \<le> sqrt v" by simp
      then have "1 / 2 ^ 537 \<le> sqrt v" by (simp only: sqrt_min)
      then have "fle (rnd ar (1 / 2 ^ 537)) (rnd ar (sqrt v))"
        by (rule float_lawsD(2) [OF assms])
      moreover have "rnd ar (1 / 2 ^ 537) = Fin (1 / 2 ^ 537)"
        by (rule float_lawsD(5) [OF assms]) simp
      ultimately show ?thesis
        by (simp add: norm_value_def 3(1))
    qed
  qed
qed

lemma product_not_zero:
  assumes "float_laws ar"
    and x: "x = NaN \<or> fle (Fin (1 / 2 ^ 537)) x"
    and y: "y = NaN \<or> fle (Fin (1 / 2 ^ 537)) y"
  shows "fmul ar x y \<noteq> Fin 0"
proof -
  have p: "(0 :: real) < 1 / 2 ^ 537" by simp
  from x consider "x = NaN" | "x = PInf" | v where "x = Fin v" "1 / 2 ^ 537 \<le> v"
    by (auto simp: fle_Fin_iff)
  then show ?thesis
  proof cases
    case 1
    then show ?thesis by simp
  next
    case 2
    from y consider "y = NaN" | "y = PInf" | w where "y = Fin w" "1 / 2 ^ 537 \<le> w"
      by (auto simp: fle_Fin_iff)
    then show ?thesis
    proof cases
      case 3
      with p have "0 < w" by linarith
      with 2 3 show ?thesis by simp
    qed (simp_all add: 2)
  next
    case 3
    from p 3(2) have v: "0 < v" by linarith
    from y consider "y = NaN" | "y = PInf" | w where "y = Fin w" "1 / 2 ^ 537 \<le> w"
      by (auto simp: fle_Fin_iff)
    then show ?thesis
    proof cases
      case 1
      with 3 show ?thesis by simp
    next
      case 2
      with 3 v show ?thesis by simp
    next
      case w: 3
      have "(1 / 2 ^ 537) * (1 / 2 ^ 537) \<le> v * w"
        using 3(2) w(2) by (intro mult_mono) simp_all
      moreover have "(1 / 2 ^ 537 :: real) * (1 / 2 ^ 537) = 1 / 2 ^ 1074"
        by (simp add: power_add [symmetric])
      ultimately have "1 / 2 ^ 1074 \<le> v * w" by simp
      then have "fle (rnd ar (1 / 2 ^ 1074)) (rnd ar (v * w))"
        by (rule float_lawsD(2) [OF assms(1)])
      moreover have "rnd ar (1 / 2 ^ 1074) = Fin (1 / 2 ^ 1074)"
        by (rule float_lawsD(5) [OF assms(1)]) simp
      ultimately have "fle (Fin (1 / 2 ^ 1074)) (rnd ar (v * w))" by simp
      then show ?thesis
        by (auto simp: 3(1) w(1) fle_Fin_iff)
    qed
  qed
qed

lemma divisor_not_zero:
  assumes "float_laws ar" and "truthy (norm_value ar a)" and "truthy (norm_value ar b)"
  shows "fmul ar (norm_value ar a) (norm_value ar b) \<noteq> Fin 0"
  using norm_value_cases [OF assms(1), of a] norm_value_cases [OF assms(1), of b] assms(2,3)
  by (intro product_not_zero [OF assms(1)]) (auto simp: truthy_def)

lemma cosine_Inr:
  assumes "float_laws ar"
  shows "cosine ar a b = Inr (cosine_value ar a b)"
  using divisor_not_zero [OF assms, of a b]
  by (simp add: cosine_def cosine_value_def vnorm_Inr [OF assms] fdiv_def Let_def)

lemma norm_value_zeros:
  assumes "float_laws ar" and "list_all (\<lambda>x. x = Fin 0) a"
  shows "norm_value ar a = Fin 0"
proof -
  have z: "rnd ar 0 = Fin 0" by (rule float_lawsD(4) [OF assms(1)])
  from assms(2) have "list_all (\<lambda>x. x = Fin 0) (map (\<lambda>x. fmul ar x x) a)"
    by (auto simp: list_all_iff z)
  then have "sum_squares ar a = Fin 0"
    unfolding sum_squares_def by (rule float_lawsD(9) [OF assms(1)])
  then show ?thesis by (simp add: norm_value_def z)
qed

text \<open>
  C10. For all vectors \<open>a\<close> and \<open>b\<close> of floats, \<open>_cosine\<close> returns: it raises neither
  \<open>ZeroDivisionError\<close> nor the \<open>ValueError\<close> of \<open>math.sqrt\<close>. With \<open>dot\<close>, \<open>na\<close> and
  \<open>nb\<close> the computed dot product and norms, it returns the computed \<open>dot / (na * nb)\<close>
  when both norms are nonzero, and \<open>0.0\<close> otherwise. The divisor \<open>na * nb\<close> is then not
  zero, because a computed norm that is not zero is NaN or at least \<open>2\<^sup>-\<^sup>5\<^sup>3\<^sup>7\<close>, so that
  the product of two of them does not underflow. An all-zero vector on either side
  gives \<open>0.0\<close>.
\<close>

theorem cosine_never_divides_by_zero:
  assumes "float_laws ar"
  shows "cosine ar a b =
           Inr (if truthy (norm_value ar a) \<and> truthy (norm_value ar b)
                then fquot ar (dot ar a b) (fmul ar (norm_value ar a) (norm_value ar b))
                else Fin 0)
     \<and> vnorm ar a = Inr (norm_value ar a) \<and> vnorm ar b = Inr (norm_value ar b)
     \<and> (\<forall>e. cosine ar a b \<noteq> Inl e)
     \<and> (truthy (norm_value ar a) \<and> truthy (norm_value ar b) \<longrightarrow>
          fmul ar (norm_value ar a) (norm_value ar b) \<noteq> Fin 0)
     \<and> (truthy (norm_value ar a) \<longrightarrow>
          norm_value ar a = NaN \<or> fle (Fin (1 / 2 ^ 537)) (norm_value ar a))
     \<and> (list_all (\<lambda>x. x = Fin 0) a \<or> list_all (\<lambda>x. x = Fin 0) b \<longrightarrow>
          cosine ar a b = Inr (Fin 0))"
proof -
  have c: "cosine ar a b = Inr (cosine_value ar a b)"
    using assms by (rule cosine_Inr)
  have z: "cosine ar a b = Inr (Fin 0)"
    if "list_all (\<lambda>x. x = Fin 0) a \<or> list_all (\<lambda>x. x = Fin 0) b"
    using that norm_value_zeros [OF assms, of a] norm_value_zeros [OF assms, of b]
    by (auto simp: c cosine_value_def truthy_def)
  have n: "norm_value ar a = NaN \<or> fle (Fin (1 / 2 ^ 537)) (norm_value ar a)"
    if "truthy (norm_value ar a)"
    using that norm_value_cases [OF assms, of a] by (auto simp: truthy_def)
  show ?thesis
    using c z n divisor_not_zero [OF assms, of a b] vnorm_Inr [OF assms]
    by (simp add: cosine_value_def)
qed


subsection \<open>An arithmetic for the examples\<close>

text \<open>
  The examples use an arithmetic that rounds to the nearest multiple of \<open>2\<^sup>-\<^sup>1\<^sup>0\<^sup>7\<^sup>4\<close>
  (the spacing of binary64 near zero, here kept over the whole range; there is no
  overflow) and that sums from left to right, rounding after each addition.
\<close>

definition grid :: real where
  "grid = 2 ^ 1074"

definition example_rnd :: "real \<Rightarrow> pyfloat" where
  "example_rnd x = Fin (of_int (round (x * grid)) / grid)"

fun fadd :: "(real \<Rightarrow> pyfloat) \<Rightarrow> pyfloat \<Rightarrow> pyfloat \<Rightarrow> pyfloat" where
  "fadd r (Fin x) (Fin y) = r (x + y)"
| "fadd r NaN y = NaN"
| "fadd r x NaN = NaN"
| "fadd r PInf NInf = NaN"
| "fadd r NInf PInf = NaN"
| "fadd r (Fin x) y = y"
| "fadd r x y = x"

definition left_sum :: "(real \<Rightarrow> pyfloat) \<Rightarrow> pyfloat list \<Rightarrow> pyfloat" where
  "left_sum r xs = fold (\<lambda>x acc. fadd r acc x) xs (Fin 0)"

definition example_arith :: float_arith where
  "example_arith = \<lparr> rnd = example_rnd, fsum = left_sum example_rnd \<rparr>"

lemma grid_pos: "0 < grid"
  by (simp add: grid_def)

lemma example_rnd_on_grid: "example_rnd (of_int n / grid) = Fin (of_int n / grid)"
  using grid_pos by (simp add: example_rnd_def)

lemma example_rnd_int: "example_rnd (of_int n) = Fin (of_int n)"
proof -
  have "of_int n = of_int (n * 2 ^ 1074) / grid"
    by (simp add: grid_def)
  then show ?thesis
    using example_rnd_on_grid [of "n * 2 ^ 1074"] by simp
qed

lemma example_rnd_numeral [simp]:
  "example_rnd 0 = Fin 0" "example_rnd 1 = Fin 1" "example_rnd (numeral k) = Fin (numeral k)"
  using example_rnd_int [of 0] example_rnd_int [of 1] example_rnd_int [of "numeral k"]
  by simp_all

lemma example_rnd_dyadic:
  assumes "k \<le> 1074"
  shows "example_rnd (of_int n / 2 ^ k) = Fin (of_int n / 2 ^ k)"
proof -
  have "1 / 2 ^ k = 2 ^ (m - k) / (2 :: real) ^ m" if "k \<le> m" for m
    using that by (simp add: power_diff)
  from this [OF assms] have "of_int n / 2 ^ k = of_int (n * 2 ^ (1074 - k)) / grid"
    unfolding grid_def by (simp add: field_simps)
  then show ?thesis
    using example_rnd_on_grid [of "n * 2 ^ (1074 - k)"] by simp
qed

lemma example_rnd_pow2:
  assumes "k \<le> 1074"
  shows "example_rnd (1 / 2 ^ k) = Fin (1 / 2 ^ k)"
  using example_rnd_dyadic [OF assms, of 1] by simp

lemma example_rnd_mono: "x \<le> y \<Longrightarrow> fle (example_rnd x) (example_rnd y)"
proof -
  assume "x \<le> y"
  then have "x * grid \<le> y * grid" using grid_pos by simp
  then have "round (x * grid) \<le> round (y * grid)" by (rule round_mono)
  then show ?thesis
    using grid_pos by (simp add: example_rnd_def divide_right_mono)
qed

lemma example_rnd_fixed:
  assumes "example_rnd v = Fin v"
  shows "v = 0 \<or> 1 / 2 ^ 1074 \<le> \<bar>v\<bar>"
proof (cases "round (v * grid) = 0")
  case True
  with assms show ?thesis by (simp add: example_rnd_def)
next
  case False
  then have "1 \<le> \<bar>round (v * grid)\<bar>" by simp
  then have "1 \<le> \<bar>of_int (round (v * grid)) :: real\<bar>"
    by (metis of_int_1_le_iff of_int_abs)
  then have "1 / grid \<le> \<bar>of_int (round (v * grid))\<bar> / grid"
    using grid_pos by (simp add: divide_right_mono)
  also have "\<dots> = \<bar>of_int (round (v * grid)) / grid\<bar>"
    using grid_pos by simp
  also have "of_int (round (v * grid)) / grid = v"
    using assms by (simp add: example_rnd_def)
  finally show ?thesis by (simp add: grid_def)
qed

lemma example_rnd_tiny:
  assumes "0 \<le> x" and "x < 1 / 2 ^ 1075"
  shows "example_rnd x = Fin 0"
proof -
  have "x * grid < (1 / 2 ^ 1075) * grid"
    using assms(2) grid_pos by simp
  also have "(1 / 2 ^ 1075) * grid = 1 / 2"
    by (simp add: grid_def)
  finally have "x * grid < 1 / 2" .
  moreover have "0 \<le> x * grid" using assms(1) grid_pos by simp
  ultimately have "round (x * grid) = 0"
    by (intro round_unique') simp
  then show ?thesis by (simp add: example_rnd_def)
qed

lemma fadd_float:
  assumes "\<And>x. is_float example_arith (example_rnd x)"
    and "is_float example_arith x" and "is_float example_arith y"
  shows "is_float example_arith (fadd example_rnd x y)"
  using assms by (cases x; cases y) (simp_all add: is_float_def)

lemma fadd_not_negative:
  assumes "not_negative x" and "not_negative y"
  shows "not_negative (fadd example_rnd x y)"
proof -
  have "not_negative (example_rnd (v + w))" if "0 \<le> v" "0 \<le> w" for v w
  proof -
    from that have "fle (example_rnd 0) (example_rnd (v + w))"
      by (intro example_rnd_mono) simp
    then show ?thesis by (auto simp: fle_Fin_iff not_negative_iff)
  qed
  with assms show ?thesis
    by (cases x; cases y) (auto simp: not_negative_iff)
qed

lemma example_arith_laws: "float_laws example_arith"
proof -
  have r: "rnd example_arith = example_rnd" and s: "fsum example_arith = left_sum example_rnd"
    by (simp_all add: example_arith_def)
  have f: "is_float example_arith (example_rnd x)" for x
  proof -
    have "example_rnd x = Fin (of_int (round (x * grid)) / grid)"
      by (simp add: example_rnd_def)
    then show ?thesis
      by (simp add: is_float_def r example_rnd_on_grid)
  qed
  have sf: "is_float example_arith (left_sum example_rnd xs)"
    if "list_all (is_float example_arith) xs" for xs
    unfolding left_sum_def
  proof (rule fold_invariant)
    show "is_float example_arith (Fin 0)" by (simp add: is_float_def r)
  next
    fix x acc assume "x \<in> set xs" "is_float example_arith acc"
    with that show "is_float example_arith (fadd example_rnd acc x)"
      by (intro fadd_float f) (simp_all add: list_all_iff)
  qed
  have sn: "not_negative (left_sum example_rnd xs)" if "list_all not_negative xs" for xs
    unfolding left_sum_def
  proof (rule fold_invariant)
    show "not_negative (Fin 0)" by (simp add: not_negative_iff)
  next
    fix x acc assume "x \<in> set xs" "not_negative acc"
    with that show "not_negative (fadd example_rnd acc x)"
      by (intro fadd_not_negative) (simp_all add: list_all_iff)
  qed
  have sz: "left_sum example_rnd xs = Fin 0" if "list_all (\<lambda>x. x = Fin 0) xs" for xs
    unfolding left_sum_def
  proof (rule fold_invariant)
    show "Fin 0 = Fin 0" by simp
  next
    fix x acc assume "x \<in> set xs" "acc = Fin 0"
    moreover from this that have "x = Fin 0" by (simp add: list_all_iff)
    ultimately show "fadd example_rnd acc x = Fin 0"
      by simp
  qed
  show ?thesis
    unfolding float_laws_def r s
  proof (intro conjI allI impI)
    show "example_rnd x \<noteq> NaN" for x
      by (simp add: example_rnd_def)
    show "fle (example_rnd x) (example_rnd y)" if "x \<le> y" for x y
      using that by (rule example_rnd_mono)
    show "is_float example_arith (example_rnd x)" for x
      by (rule f)
    show "is_float example_arith (Fin 0)"
      by (simp add: is_float_def r)
    show "is_float example_arith (Fin (1 / 2 ^ k))" if "k \<le> 1074" for k
      using example_rnd_pow2 [OF that] by (simp add: is_float_def r)
    show "v = 0 \<or> 1 / 2 ^ 1074 \<le> \<bar>v\<bar>" if "is_float example_arith (Fin v)" for v
    proof -
      from that have "example_rnd v = Fin v" by (simp add: is_float_def r)
      then show ?thesis by (rule example_rnd_fixed)
    qed
    show "is_float example_arith (left_sum example_rnd xs)"
      if "list_all (is_float example_arith) xs" for xs
      using that by (rule sf)
    show "not_negative (left_sum example_rnd xs)" if "list_all not_negative xs" for xs
      using that by (rule sn)
    show "left_sum example_rnd xs = Fin 0" if "list_all (\<lambda>x. x = Fin 0) xs" for xs
      using that by (rule sz)
  qed
qed


lemma sqrt_25: "sqrt 25 = 5"
  by (rule real_sqrt_unique) simp_all

lemma example_fields [simp]:
  "rnd example_arith = example_rnd" "fsum example_arith = left_sum example_rnd"
  by (simp_all add: example_arith_def)

definition tiny :: real where
  "tiny = 1 / 2 ^ 600"

lemma example_square_tiny: "example_rnd (tiny * tiny) = Fin 0"
  by (rule example_rnd_tiny) (simp_all add: tiny_def)

text \<open>
  With the example arithmetic: a vector against itself gives 1; a vector whose squares
  underflow (\<open>tiny\<close> is \<open>2\<^sup>-\<^sup>6\<^sup>0\<^sup>0\<close>) has the computed norm zero, and the result is
  \<open>0.0\<close>; so has an all-zero vector.
\<close>

theorem cosine_never_divides_by_zero_witness:
  "float_laws example_arith
   \<and> cosine example_arith [Fin 3, Fin 4] [Fin 3, Fin 4] = Inr (Fin 1)
   \<and> 0 < tiny
   \<and> norm_value example_arith [Fin tiny, Fin 0] = Fin 0
   \<and> cosine example_arith [Fin tiny, Fin 0] [Fin 1, Fin 0] = Inr (Fin 0)
   \<and> cosine example_arith [Fin 0, Fin 0] [Fin 1, Fin 0] = Inr (Fin 0)"
proof -
  note t = cosine_never_divides_by_zero [OF example_arith_laws]
  have n: "norm_value example_arith [Fin 3, Fin 4] = Fin 5"
    by (simp add: norm_value_def sum_squares_def left_sum_def sqrt_25)
  have d: "dot example_arith [Fin 3, Fin 4] [Fin 3, Fin 4] = Fin 25"
    by (simp add: dot_def left_sum_def)
  have u: "norm_value example_arith [Fin tiny, Fin 0] = Fin 0"
    by (simp add: norm_value_def sum_squares_def left_sum_def example_square_tiny)
  have "cosine example_arith [Fin 3, Fin 4] [Fin 3, Fin 4] = Inr (Fin 1)"
    using t [of "[Fin 3, Fin 4]" "[Fin 3, Fin 4]"] by (simp add: n d truthy_def)
  moreover have "cosine example_arith [Fin tiny, Fin 0] [Fin 1, Fin 0] = Inr (Fin 0)"
    using t [of "[Fin tiny, Fin 0]" "[Fin 1, Fin 0]"] by (simp add: u truthy_def)
  moreover have "cosine example_arith [Fin 0, Fin 0] [Fin 1, Fin 0] = Inr (Fin 0)"
  proof -
    from t [of "[Fin 0, Fin 0]" "[Fin 1, Fin 0]"]
    have "list_all (\<lambda>x. x = Fin 0) [Fin 0, Fin 0] \<or> list_all (\<lambda>x. x = Fin 0) [Fin 1, Fin 0 :: pyfloat] \<longrightarrow>
            cosine example_arith [Fin 0, Fin 0] [Fin 1, Fin 0] = Inr (Fin 0)"
      by blast
    then show ?thesis by simp
  qed
  moreover have "0 < tiny" by (simp add: tiny_def)
  ultimately show ?thesis
    using example_arith_laws u by simp
qed

section \<open>Facts about descending sorts\<close>

lemma sorted_desc_sorted: "sorted_wrt (\<lambda>a b. f b \<le> f a) (sorted_desc f xs)"
proof -
  have "sorted (map (\<lambda>x. - f x) (sort_key (\<lambda>x. - f x) xs))"
    by (rule sorted_sort_key)
  then show ?thesis
    by (simp add: sorted_desc_def sorted_map)
qed

lemma set_sorted_desc [simp]: "set (sorted_desc f xs) = set xs"
  by (simp add: sorted_desc_def)

lemma mset_sorted_desc [simp]: "mset (sorted_desc f xs) = mset xs"
  by (simp add: sorted_desc_def)

lemma length_sorted_desc [simp]: "length (sorted_desc f xs) = length xs"
  by (simp add: sorted_desc_def)

lemma sorted_desc_Nil_iff [simp]: "sorted_desc f xs = [] \<longleftrightarrow> xs = []"
  by (metis length_sorted_desc length_0_conv)

lemma distinct_map_sorted_desc: "distinct (map g (sorted_desc f xs)) = distinct (map g xs)"
proof -
  have "mset (map g (sorted_desc f xs)) = mset (map g xs)" by simp
  then show ?thesis by (rule mset_eq_imp_distinct_iff)
qed

lemma sorted_wrt_filter: "sorted_wrt P xs \<Longrightarrow> sorted_wrt P (filter Q xs)"
  by (induction xs) auto

lemma sorted_wrt_take: "sorted_wrt P xs \<Longrightarrow> sorted_wrt P (take n xs)"
  by (metis append_take_drop_id sorted_wrt_append)


section \<open>MaestroEngine._match_skills\<close>

text \<open>The dataclass \<open>SkillFingerprint\<close>; its fields carry the prefix \<open>fp_\<close>.\<close>

record SkillFingerprint =
  fp_name :: pystr
  fp_description :: pystr
  fp_domains :: "pystr list"
  fp_chunk_count :: nat
  fp_embedding :: "pyfloat list option"













subsection \<open>A sort for the examples\<close>










section \<open>Vector store\<close>

text \<open>
  The vector store is an external collaborator (a ChromaDB collection). What the engine
  relies on is modelled from the spec's VectorStore contract: a store keyed by chunk
  id that holds, for each id, the vector, the document text and the metadata;
  \<open>count()\<close> is the number of ids, and \<open>get(ids)\<close> returns the entries of those of the
  requested ids that are present. The metadata of an entry are the five keys
  \<open>_store_chunks\<close> writes; a key may be absent (\<open>None\<close>), which \<open>meta.get(key, default)\<close>
  answers with the default. \<open>domains\<close> is written with \<open>json.dumps\<close> and read with
  \<open>json.loads\<close>; the model keeps the list itself.
\<close>

record Metadata =
  md_skill :: "pystr option"
  md_file :: "pystr option"
  md_file_path :: "pystr option"
  md_section :: "pystr option"
  md_domains :: "pystr list option"

record Stored =
  st_embedding :: "pyfloat list"
  st_document :: pystr
  st_metadata :: Metadata

type_synonym collection = "(pystr \<times> Stored) list"


definition collection_get :: "collection \<Rightarrow> pystr list \<Rightarrow> (pystr \<times> Stored) list" where
  "collection_get col ids = filter (\<lambda>(cid, st). cid \<in> set ids) col"

section \<open>MaestroEngine._rrf_fuse\<close>

text \<open>The dataclass \<open>SearchResult\<close>.\<close>

record SearchResult =
  sr_chunk :: Chunk
  final_score :: real
  semantic_rank :: "nat option"
  bm25_rank :: "nat option"
  rerank_score :: "real option"

text \<open>
  \<^verbatim>\<open>
    def _rrf_fuse(self, sem, bm25, k=60):
        rrf = defaultdict(float)
        sem_map = {}
        for rank, (chunk_id, score, _) in enumerate(sem):
            rrf[chunk_id] += 1 / (k + rank + 1)
            sem_map[chunk_id] = (score, rank)
        bm25_sorted = sorted(bm25.items(), key=lambda x: x[1], reverse=True)
        bm25_rank_map = {cid: r for r, (cid, _) in enumerate(bm25_sorted)}
        for rank, (chunk_id, _) in enumerate(bm25_sorted):
            rrf[chunk_id] += 1 / (k + rank + 1)
        if not rrf:
            return []
        all_ids = list(rrf.keys())
        try:
            fetched = self._collection.get(ids=all_ids, include=["documents", "metadatas"])
        except Exception:
            return []
        id_to_data = {cid: (doc, meta) for cid, doc, meta in zip(...)}
        results = []
        for chunk_id, rrf_score in sorted(rrf.items(), key=lambda x: x[1], reverse=True):
            if chunk_id not in id_to_data:
                continue
            doc, meta = id_to_data[chunk_id]
            sem_score, sem_rank = sem_map.get(chunk_id, (0.0, None))
            chunk = Chunk(id=chunk_id, text=doc, contextual_text=doc,
                skill=meta.get("skill", "unknown"), file=meta.get("file", ""),
                file_path=meta.get("file_path", ""), section=meta.get("section", ""),
                domains=json.loads(meta.get("domains", "[]")))
            results.append(SearchResult(chunk=chunk, final_score=rrf_score,
                semantic_rank=sem_rank, bm25_rank=bm25_rank_map.get(chunk_id)))
        return results
  \<close>
  \<open>k\<close> is a count; the only caller leaves it at its default 60. \<open>self._collection\<close> is
  \<open>None\<close> when the store could not be opened: the call of \<open>get\<close> then raises, and the
  \<open>except\<close> returns the empty list.
\<close>

definition dict_get_or :: "('k \<times> 'v) list \<Rightarrow> 'k \<Rightarrow> 'v \<Rightarrow> 'v" where
  "dict_get_or d k v = (case dict_get d k of None \<Rightarrow> v | Some x \<Rightarrow> x)"

text \<open>The loop \<open>rrf[chunk_id] += 1 / (k + rank + 1)\<close> over a list of ids, from \<open>rank\<close> on.\<close>

fun add_ranks :: "nat \<Rightarrow> nat \<Rightarrow> pystr list \<Rightarrow> (pystr \<times> real) list \<Rightarrow> (pystr \<times> real) list" where
  "add_ranks k rank [] rrf = rrf"
| "add_ranks k rank (cid # ids) rrf =
     add_ranks k (Suc rank) ids
       (dict_set rrf cid (dict_get_or rrf cid 0 + 1 / real (k + rank + 1)))"

text \<open>\<open>sem_map\<close> and \<open>bm25_rank_map\<close>: the last entry of an id wins.\<close>

fun sem_map_from :: "nat \<Rightarrow> (pystr \<times> real \<times> nat) list \<Rightarrow> (pystr \<times> real \<times> nat) list \<Rightarrow> (pystr \<times> real \<times> nat) list" where
  "sem_map_from rank [] m = m"
| "sem_map_from rank ((cid, score, r) # sem) m = sem_map_from (Suc rank) sem (dict_set m cid (score, rank))"

fun rank_map_from :: "nat \<Rightarrow> pystr list \<Rightarrow> (pystr \<times> nat) list \<Rightarrow> (pystr \<times> nat) list" where
  "rank_map_from rank [] m = m"
| "rank_map_from rank (cid # ids) m = rank_map_from (Suc rank) ids (dict_set m cid rank)"

definition make_result ::
  "(pystr \<times> real \<times> nat) list \<Rightarrow> (pystr \<times> nat) list \<Rightarrow> (pystr \<times> Stored) list \<Rightarrow> pystr \<times> real \<Rightarrow> SearchResult" where
  "make_result sem_map bm25_rank_map id_to_data item =
     (case item of (cid, rrf_score) \<Rightarrow>
        let st = the (dict_get id_to_data cid);
            doc = st_document st;
            meta = st_metadata st
        in \<lparr> sr_chunk =
               \<lparr> c_id = cid, c_text = doc, c_contextual_text = doc,
                 c_skill = (case md_skill meta of None \<Rightarrow> str ''unknown'' | Some s \<Rightarrow> s),
                 c_file = (case md_file meta of None \<Rightarrow> [] | Some s \<Rightarrow> s),
                 c_file_path = (case md_file_path meta of None \<Rightarrow> [] | Some s \<Rightarrow> s),
                 c_section = (case md_section meta of None \<Rightarrow> [] | Some s \<Rightarrow> s),
                 c_domains = (case md_domains meta of None \<Rightarrow> [] | Some ds \<Rightarrow> ds) \<rparr>,
             final_score = rrf_score,
             semantic_rank = (case dict_get sem_map cid of None \<Rightarrow> None | Some (s, r) \<Rightarrow> Some r),
             bm25_rank = dict_get bm25_rank_map cid,
             rerank_score = None \<rparr>)"

definition rrf_scores :: "(pystr \<times> real \<times> nat) list \<Rightarrow> (pystr \<times> real) list \<Rightarrow> nat \<Rightarrow> (pystr \<times> real) list" where
  "rrf_scores sem bm25 k =
     add_ranks k 0 (map fst (sorted_desc snd bm25)) (add_ranks k 0 (map fst sem) [])"

definition rrf_fuse ::
  "collection option \<Rightarrow> (pystr \<times> real \<times> nat) list \<Rightarrow> (pystr \<times> real) list \<Rightarrow> nat \<Rightarrow> SearchResult list" where
  "rrf_fuse col sem bm25 k =
     (let rrf = rrf_scores sem bm25 k;
          sem_map = sem_map_from 0 sem [];
          bm25_rank_map = rank_map_from 0 (map fst (sorted_desc snd bm25)) []
      in if rrf = [] then []
         else case col of
                None \<Rightarrow> []
              | Some c \<Rightarrow>
                  let id_to_data = collection_get c (map fst rrf)
                  in map (make_result sem_map bm25_rank_map id_to_data)
                       (filter (\<lambda>(cid, rrf_score). dict_get id_to_data cid \<noteq> None)
                          (sorted_desc snd rrf)))"

text \<open>
  The sum over the positions \<open>rank\<close> at which \<open>cid\<close> stands in the list \<open>ids\<close> of
  \<open>1 / (k + rank + 1)\<close>.
\<close>

definition rrf_contribution :: "nat \<Rightarrow> pystr list \<Rightarrow> pystr \<Rightarrow> real" where
  "rrf_contribution k ids cid =
     sum_list (map (\<lambda>rank. 1 / real (k + rank + 1))
                 (filter (\<lambda>rank. ids ! rank = cid) [0..<length ids]))"


subsection \<open>Facts about dicts\<close>

lemma dict_get_in_set: "dict_get d k = Some v \<Longrightarrow> (k, v) \<in> set d"
  by (induction d) (auto split: if_splits)

lemma set_dict_set:
  "distinct (map fst d) \<Longrightarrow> set (dict_set d k v) = insert (k, v) {e \<in> set d. fst e \<noteq> k}"
  by (induction d k v rule: dict_set.induct) (auto simp: image_iff)

lemma dict_get_dict_set: "dict_get (dict_set d k v) k' = (if k' = k then Some v else dict_get d k')"
  by (induction d) auto

lemma keys_dict_set: "fst ` set (dict_set d k v) = insert k (fst ` set d)"
  by (induction d k v rule: dict_set.induct) (simp_all add: insert_commute)

lemma distinct_dict_set: "distinct (map fst d) \<Longrightarrow> distinct (map fst (dict_set d k v))"
proof (induction d)
  case Nil
  then show ?case by simp
next
  case (Cons p d)
  obtain k' v' where p: "p = (k', v')" by (cases p)
  show ?case
  proof (cases "k' = k")
    case True
    with Cons p show ?thesis by simp
  next
    case False
    have "k' \<notin> fst ` set (dict_set d k v)"
      using Cons.prems False by (simp add: keys_dict_set p)
    with Cons False show ?thesis by (simp add: p)
  qed
qed

lemma dict_get_None_iff: "dict_get d k = None \<longleftrightarrow> k \<notin> fst ` set d"
  by (induction d) (auto split: if_splits)

lemma dict_get_Some_iff: "distinct (map fst d) \<Longrightarrow> dict_get d k = Some v \<longleftrightarrow> (k, v) \<in> set d"
  by (induction d) (force split: if_splits)+

subsection \<open>The fused scores\<close>

fun rank_sum :: "nat \<Rightarrow> nat \<Rightarrow> pystr list \<Rightarrow> pystr \<Rightarrow> real" where
  "rank_sum k s [] cid = 0"
| "rank_sum k s (c # ids) cid =
     (if c = cid then 1 / real (k + s + 1) else 0) + rank_sum k (Suc s) ids cid"

lemma dict_get_add_ranks:
  "dict_get (add_ranks k s ids rrf) cid =
     (if cid \<in> set ids \<or> dict_get rrf cid \<noteq> None
      then Some (dict_get_or rrf cid 0 + rank_sum k s ids cid) else None)"
proof (induction ids arbitrary: s rrf)
  case Nil
  then show ?case by (auto simp: dict_get_or_def)
next
  case (Cons c ids)
  show ?case
    by (simp add: Cons.IH dict_get_dict_set dict_get_or_def split: option.splits)
qed

lemma distinct_add_ranks:
  "distinct (map fst rrf) \<Longrightarrow> distinct (map fst (add_ranks k s ids rrf))"
  by (induction ids arbitrary: s rrf) (simp_all add: distinct_dict_set)

lemma keys_add_ranks: "fst ` set (add_ranks k s ids rrf) = set ids \<union> fst ` set rrf"
  by (induction ids arbitrary: s rrf) (auto simp: keys_dict_set)

lemma rank_sum_positions:
  "rank_sum k s ids cid =
     sum_list (map (\<lambda>rank. 1 / real (k + s + rank + 1))
                 (filter (\<lambda>rank. ids ! rank = cid) [0..<length ids]))"
proof (induction ids arbitrary: s)
  case Nil
  then show ?case by simp
next
  case (Cons c ids)
  have u: "[0..<length (c # ids)] = 0 # map Suc [0..<length ids]"
    by (simp add: upt_conv_Cons map_Suc_upt del: upt_Suc)
  show ?case
    unfolding u by (simp add: Cons.IH filter_map comp_def)
qed

lemma rank_sum_contribution: "rank_sum k 0 ids cid = rrf_contribution k ids cid"
  by (simp add: rank_sum_positions rrf_contribution_def)

lemma rank_sum_absent: "cid \<notin> set ids \<Longrightarrow> rank_sum k s ids cid = 0"
  by (induction ids arbitrary: s) auto

lemma dict_get_rrf_scores:
  "dict_get (rrf_scores sem bm25 k) cid =
     (if cid \<in> fst ` set sem \<or> cid \<in> fst ` set bm25
      then Some (rrf_contribution k (map fst sem) cid
                 + rrf_contribution k (map fst (sorted_desc snd bm25)) cid)
      else None)"
  by (auto simp: rrf_scores_def dict_get_add_ranks dict_get_or_def rank_sum_contribution [symmetric]
      rank_sum_absent)

lemma distinct_rrf_scores: "distinct (map fst (rrf_scores sem bm25 k))"
  by (simp add: rrf_scores_def distinct_add_ranks)

lemma rrf_scores_member:
  "(cid, s) \<in> set (rrf_scores sem bm25 k) \<Longrightarrow>
     s = rrf_contribution k (map fst sem) cid
         + rrf_contribution k (map fst (sorted_desc snd bm25)) cid"
  using dict_get_Some_iff [OF distinct_rrf_scores, of sem bm25 k cid s]
  by (simp add: dict_get_rrf_scores split: if_splits)


lemma rrf_contribution_distinct:
  assumes "distinct ids" and "i < length ids"
  shows "rrf_contribution k ids (ids ! i) = 1 / real (k + i + 1)"
proof -
  have "filter (\<lambda>rank. ids ! rank = ids ! i) [0..<length ids] = filter (\<lambda>rank. rank = i) [0..<length ids]"
    using assms by (intro filter_cong) (auto simp: nth_eq_iff_index_eq)
  also have "\<dots> = [i]"
    using assms(2) by (induction ids rule: rev_induct) (auto simp: less_Suc_eq)
  finally show ?thesis by (simp add: rrf_contribution_def)
qed

lemma rrf_contribution_absent: "cid \<notin> set ids \<Longrightarrow> rrf_contribution k ids cid = 0"
  using rank_sum_absent [of cid ids k 0] by (simp add: rank_sum_contribution)

lemma final_score_make_result: "final_score (make_result sm bm dt item) = snd item"
  by (cases item) (simp add: make_result_def Let_def)

lemma id_make_result: "c_id (sr_chunk (make_result sm bm dt item)) = fst item"
  by (cases item) (simp add: make_result_def Let_def)

lemma dict_get_collection_get:
  "dict_get (collection_get c ids) cid \<noteq> None \<longleftrightarrow> cid \<in> set ids \<and> cid \<in> fst ` set c"
  by (force simp: dict_get_None_iff collection_get_def)

lemma dict_get_collection_get_Some:
  "(\<exists>y. dict_get (collection_get c ids) cid = Some y) \<longleftrightarrow> cid \<in> set ids \<and> cid \<in> fst ` set c"
  using dict_get_collection_get [of c ids cid] by auto

lemma slice_to_sorted_wrt: "sorted_wrt P xs \<Longrightarrow> sorted_wrt P (slice_to n xs)"
  by (simp add: slice_to_def sorted_wrt_take)

lemma rrf_fuse_unfold:
  "rrf_fuse (Some c) sem bm25 k =
     map (make_result (sem_map_from 0 sem []) (rank_map_from 0 (map fst (sorted_desc snd bm25)) [])
            (collection_get c (map fst (rrf_scores sem bm25 k))))
       (filter (\<lambda>(cid, rrf_score). cid \<in> fst ` set c)
          (sorted_desc snd (rrf_scores sem bm25 k)))"
proof -
  have f: "filter (\<lambda>(cid, rrf_score).
              dict_get (collection_get c (map fst (rrf_scores sem bm25 k))) cid \<noteq> None)
             (sorted_desc snd (rrf_scores sem bm25 k))
           = filter (\<lambda>(cid, rrf_score). cid \<in> fst ` set c) (sorted_desc snd (rrf_scores sem bm25 k))"
  proof (intro filter_cong refl)
    fix x assume "x \<in> set (sorted_desc snd (rrf_scores sem bm25 k))"
    then have "fst x \<in> set (map fst (rrf_scores sem bm25 k))" by simp
    then show "(case x of (cid, rrf_score) \<Rightarrow>
                  dict_get (collection_get c (map fst (rrf_scores sem bm25 k))) cid \<noteq> None)
               = (case x of (cid, rrf_score) \<Rightarrow> cid \<in> fst ` set c)"
      by (simp add: case_prod_unfold dict_get_collection_get_Some)
  qed
  show ?thesis
  proof (cases "rrf_scores sem bm25 k = []")
    case True
    then show ?thesis by (simp add: rrf_fuse_def)
  next
    case False
    with f show ?thesis
      by (simp add: rrf_fuse_def Let_def)
  qed
qed

lemma rrf_fuse_None: "rrf_fuse None sem bm25 k = []"
  by (simp add: rrf_fuse_def Let_def)

lemma keys_rrf_scores: "fst ` set (rrf_scores sem bm25 k) = fst ` set sem \<union> fst ` set bm25"
  by (auto simp: rrf_scores_def keys_add_ranks)

text \<open>
  C4. For all candidate lists, every result of \<open>_rrf_fuse\<close> carries as \<open>final_score\<close>
  the sum of the contributions of the semantic list and of the lexical list (sorted by
  descending BM25 score), the contribution of a list being \<open>1 / (60 + rank + 1)\<close> for
  the zero-based position \<open>rank\<close> of the id in it and nothing when the id is absent.
  The results are in order of non-increasing \<open>final_score\<close>; they are exactly the fused
  ids that the store holds (the others are skipped, and nothing is raised: the result
  is a list in every case); and every prefix \<open>fused[:top_k]\<close>, which is what \<open>search\<close>
  returns when reranking is disabled, is in order of non-increasing \<open>final_score\<close> too.
\<close>

theorem rrf_fuse_scores_and_order:
  "(\<forall>r\<in>set (rrf_fuse col sem bm25 60).
       final_score r = rrf_contribution 60 (map fst sem) (c_id (sr_chunk r))
                       + rrf_contribution 60 (map fst (sorted_desc snd bm25)) (c_id (sr_chunk r)))
   \<and> (\<forall>ids i. distinct ids \<and> i < length ids \<longrightarrow>
         rrf_contribution 60 ids (ids ! i) = 1 / real (60 + i + 1))
   \<and> (\<forall>ids cid. cid \<notin> set ids \<longrightarrow> rrf_contribution 60 ids cid = 0)
   \<and> sorted_wrt (\<lambda>a b. final_score b \<le> final_score a) (rrf_fuse col sem bm25 60)
   \<and> set (map (\<lambda>r. c_id (sr_chunk r)) (rrf_fuse col sem bm25 60)) =
       {cid. (cid \<in> fst ` set sem \<or> cid \<in> fst ` set bm25)
             \<and> (\<exists>c. col = Some c \<and> cid \<in> fst ` set c)}
   \<and> sorted_wrt (\<lambda>a b. final_score b \<le> final_score a)
         (slice_to top_k (rrf_fuse col sem bm25 60))"
proof -
  let ?res = "rrf_fuse col sem bm25 60"
  have score: "\<forall>r\<in>set ?res.
       final_score r = rrf_contribution 60 (map fst sem) (c_id (sr_chunk r))
                       + rrf_contribution 60 (map fst (sorted_desc snd bm25)) (c_id (sr_chunk r))"
  proof (cases col)
    case None
    then show ?thesis by (simp add: rrf_fuse_None)
  next
    case (Some c)
    show ?thesis
    proof
      fix r assume "r \<in> set ?res"
      then obtain item where item: "item \<in> set (rrf_scores sem bm25 60)"
        and r: "r = make_result (sem_map_from 0 sem []) (rank_map_from 0 (map fst (sorted_desc snd bm25)) [])
            (collection_get c (map fst (rrf_scores sem bm25 60))) item"
        unfolding Some rrf_fuse_unfold by auto
      from item have "snd item = rrf_contribution 60 (map fst sem) (fst item)
          + rrf_contribution 60 (map fst (sorted_desc snd bm25)) (fst item)"
        using rrf_scores_member [of "fst item" "snd item" sem bm25 60] by simp
      then show "final_score r = rrf_contribution 60 (map fst sem) (c_id (sr_chunk r))
                       + rrf_contribution 60 (map fst (sorted_desc snd bm25)) (c_id (sr_chunk r))"
        by (simp add: r final_score_make_result id_make_result)
    qed
  qed
  have order: "sorted_wrt (\<lambda>a b. final_score b \<le> final_score a) ?res"
  proof (cases col)
    case None
    then show ?thesis by (simp add: rrf_fuse_None)
  next
    case (Some c)
    have "sorted_wrt (\<lambda>a b. snd b \<le> snd a)
            (filter (\<lambda>(cid, rrf_score). cid \<in> fst ` set c) (sorted_desc snd (rrf_scores sem bm25 60)))"
      by (intro sorted_wrt_filter sorted_desc_sorted)
    then show ?thesis
      unfolding Some rrf_fuse_unfold by (simp add: sorted_wrt_map final_score_make_result)
  qed
  have ids: "set (map (\<lambda>r. c_id (sr_chunk r)) ?res) =
       {cid. (cid \<in> fst ` set sem \<or> cid \<in> fst ` set bm25)
             \<and> (\<exists>c. col = Some c \<and> cid \<in> fst ` set c)}"
  proof (cases col)
    case None
    then show ?thesis by (simp add: rrf_fuse_None)
  next
    case (Some c)
    have "set (map (\<lambda>r. c_id (sr_chunk r)) (rrf_fuse (Some c) sem bm25 60))
        = fst ` {item \<in> set (rrf_scores sem bm25 60). fst item \<in> fst ` set c}"
      unfolding rrf_fuse_unfold by (simp add: comp_def id_make_result case_prod_unfold)
    also have "\<dots> = {cid. cid \<in> fst ` set (rrf_scores sem bm25 60) \<and> cid \<in> fst ` set c}"
      by (auto simp: image_iff)
    finally show ?thesis
      by (simp add: Some keys_rrf_scores)
  qed
  show ?thesis
    using score order ids slice_to_sorted_wrt [OF order, of top_k]
      rrf_contribution_distinct [of _ _ 60] rrf_contribution_absent [of _ _ 60]
    by (intro conjI allI impI) (simp_all only: conj_imp_eq_imp_imp)
qed


text \<open>A stored entry with the document \<open>d\<close>, for the examples.\<close>

definition stored_doc :: "string \<Rightarrow> Stored" where
  "stored_doc d =
     \<lparr> st_embedding = [], st_document = str d,
       st_metadata = \<lparr> md_skill = Some (str ''s''), md_file = Some (str ''f.md''),
                       md_file_path = Some (str ''s/f.md''), md_section = Some (str ''A''),
                       md_domains = Some [str ''s''] \<rparr> \<rparr>"

theorem rrf_fuse_scores_and_order_witness:
  "map (\<lambda>r. (c_id (sr_chunk r), final_score r))
     (rrf_fuse (Some [(str ''a'', stored_doc ''A''), (str ''c'', stored_doc ''C'')])
        [(str ''a'', 0.9, 0), (str ''b'', 0.5, 1)]
        [(str ''b'', 2), (str ''a'', 1), (str ''c'', 3)] 60)
   = [(str ''a'', 1 / 61 + 1 / 63), (str ''c'', 1 / 61)]
   \<and> sorted_wrt (\<lambda>a b. final_score b \<le> final_score a)
        (rrf_fuse (Some [(str ''a'', stored_doc ''A''), (str ''c'', stored_doc ''C'')])
           [(str ''a'', 0.9, 0), (str ''b'', 0.5, 1)]
           [(str ''b'', 2), (str ''a'', 1), (str ''c'', 3)] 60)"
proof -
  let ?col = "Some [(str ''a'', stored_doc ''A''), (str ''c'', stored_doc ''C'')]"
  let ?sem = "[(str ''a'', 0.9 :: real, 0 :: nat), (str ''b'', 0.5, 1)]"
  let ?bm = "[(str ''b'', 2 :: real), (str ''a'', 1), (str ''c'', 3)]"
  have "map (\<lambda>r. (c_id (sr_chunk r), final_score r)) (rrf_fuse ?col ?sem ?bm 60)
          = [(str ''a'', 1 / 61 + 1 / 63), (str ''c'', 1 / 61)]"
    by (simp add: rrf_fuse_def rrf_scores_def sorted_desc_def collection_get_def make_result_def
        dict_get_or_def str_def Let_def)
  moreover have "sorted_wrt (\<lambda>a b. final_score b \<le> final_score a) (rrf_fuse ?col ?sem ?bm 60)"
    using rrf_fuse_scores_and_order [of ?col ?sem ?bm 0] by blast
  ultimately show ?thesis by blast
qed

section \<open>BM25\<close>

text \<open>
  \<^verbatim>\<open>
    class BM25:
        def __init__(self, k1=1.5, b=0.75):
            self.k1, self.b = k1, b
            self._docs = []
            self._ids = []
            self._df = defaultdict(int)
            self._avgdl = 0.0
            self._N = 0

        def _tokenize(self, text):
            return re.findall(r"\w+", text.lower())
  \<close>
  Which code points \<open>\w\<close> matches and what \<open>str.lower\<close> returns are Unicode tables of the
  Python library; they enter as the parameters \<open>isw\<close> and \<open>lower\<close>. \<open>re.findall\<close> with
  \<open>\w+\<close> returns the maximal runs of word characters, left to right.
\<close>

function findall_words :: "(nat \<Rightarrow> bool) \<Rightarrow> pystr \<Rightarrow> pystr list" where
  "findall_words isw [] = []"
| "findall_words isw (c # cs) =
     (if isw c then (c # takeWhile isw cs) # findall_words isw (dropWhile isw cs)
      else findall_words isw cs)"
  by pat_completeness auto
termination
  by (relation "measure (\<lambda>(isw, s). length s)") (auto simp: less_Suc_eq_le length_dropWhile_le)

definition tokenize :: "(nat \<Rightarrow> bool) \<Rightarrow> (pystr \<Rightarrow> pystr) \<Rightarrow> pystr \<Rightarrow> pystr list" where
  "tokenize isw lower t = findall_words isw (lower t)"

text \<open>The two tables on ASCII text, for the examples.\<close>

definition ascii_word :: "nat \<Rightarrow> bool" where
  "ascii_word c = ((48 \<le> c \<and> c \<le> 57) \<or> (65 \<le> c \<and> c \<le> 90) \<or> c = 95 \<or> (97 \<le> c \<and> c \<le> 122))"

definition ascii_lower :: "pystr \<Rightarrow> pystr" where
  "ascii_lower s = map (\<lambda>c. if 65 \<le> c \<and> c \<le> 90 then c + 32 else c) s"

text \<open>
  The state of a \<open>BM25\<close> object. \<open>_df\<close> is a \<open>defaultdict(int)\<close>, read only by key: a
  function that is 0 where no count was stored.
\<close>

record BM25 =
  bm_k1 :: real
  bm_b :: real
  bm_docs :: "pystr list list"
  bm_ids :: "pystr list"
  bm_df :: "pystr \<Rightarrow> nat"
  bm_avgdl :: real
  bm_N :: nat

definition BM25_init :: "real \<Rightarrow> real \<Rightarrow> BM25" where
  "BM25_init k1' b' =
     \<lparr> bm_k1 = k1', bm_b = b', bm_docs = [], bm_ids = [], bm_df = (\<lambda>t. 0), bm_avgdl = 0, bm_N = 0 \<rparr>"

text \<open>
  \<^verbatim>\<open>
    def fit(self, docs, ids):
        self._docs = [self._tokenize(d) for d in docs]
        self._ids = ids
        self._N = len(docs)
        self._df = defaultdict(int)
        total = 0
        for tokens in self._docs:
            total += len(tokens)
            for t in set(tokens):
                self._df[t] += 1
        self._avgdl = total / self._N if self._N else 1.0
  \<close>
  The loop over \<open>set(tokens)\<close> visits each distinct token once, in an order that does
  not matter for the counts; the model visits them in the order of \<open>remdups\<close>.
\<close>

definition count_doc :: "pystr list \<Rightarrow> (pystr \<Rightarrow> nat) \<Rightarrow> (pystr \<Rightarrow> nat)" where
  "count_doc tokens df = fold (\<lambda>t d. d(t := d t + 1)) (remdups tokens) df"

definition fit :: "(pystr \<Rightarrow> pystr list) \<Rightarrow> BM25 \<Rightarrow> pystr list \<Rightarrow> pystr list \<Rightarrow> BM25" where
  "fit tok self ds ids =
     (let tokenized = map tok ds;
          n = length ds;
          total = sum_list (map length tokenized)
      in self \<lparr> bm_docs := tokenized, bm_ids := ids, bm_N := n,
                bm_df := fold count_doc tokenized (\<lambda>t. 0),
                bm_avgdl := (if n \<noteq> 0 then real total / real n else 1) \<rparr>)"

text \<open>
  \<^verbatim>\<open>
    def score(self, query, top_k=20):
        q_tokens = self._tokenize(query)
        scores = {}
        for i, tokens in enumerate(self._docs):
            tf_map = defaultdict(int)
            for t in tokens:
                tf_map[t] += 1
            s = 0.0
            dl = len(tokens)
            for qt in q_tokens:
                if qt not in tf_map:
                    continue
                tf = tf_map[qt]
                idf = math.log((self._N - self._df[qt] + 0.5) / (self._df[qt] + 0.5) + 1)
                s += idf * (tf * (self.k1 + 1)) / (
                    tf + self.k1 * (1 - self.b + self.b * dl / self._avgdl)
                )
            if s > 0:
                scores[self._ids[i]] = s
        return sorted(scores.items(), key=lambda x: x[1], reverse=True)[:top_k]
  \<close>
  A division by zero, \<open>math.log\<close> of a number that is not positive and an index of
  \<open>_ids\<close> out of range raise.
\<close>

definition py_log :: "real \<Rightarrow> py_error + real" where
  "py_log x = (if x \<le> 0 then Inl ValueError else Inr (ln x))"

definition bm25_term :: "BM25 \<Rightarrow> pystr list \<Rightarrow> pystr \<Rightarrow> py_error + real" where
  "bm25_term self tokens qt =
     (let tf = real (count_list tokens qt);
          dl = real (length tokens);
          n = real (bm_N self);
          d = real (bm_df self qt)
      in case py_div (n - d + 0.5) (d + 0.5) of
           Inl e \<Rightarrow> Inl e
         | Inr ratio \<Rightarrow>
             (case py_log (ratio + 1) of
                Inl e \<Rightarrow> Inl e
              | Inr idf \<Rightarrow>
                  (case py_div (bm_b self * dl) (bm_avgdl self) of
                     Inl e \<Rightarrow> Inl e
                   | Inr rel \<Rightarrow>
                       py_div (idf * (tf * (bm_k1 self + 1))) (tf + bm_k1 self * (1 - bm_b self + rel)))))"

fun doc_score :: "BM25 \<Rightarrow> pystr list \<Rightarrow> pystr list \<Rightarrow> real \<Rightarrow> py_error + real" where
  "doc_score self tokens [] s = Inr s"
| "doc_score self tokens (qt # q_tokens) s =
     (if count_list tokens qt = 0 then doc_score self tokens q_tokens s
      else case bm25_term self tokens qt of
             Inl e \<Rightarrow> Inl e
           | Inr x \<Rightarrow> doc_score self tokens q_tokens (s + x))"

fun score_docs ::
  "BM25 \<Rightarrow> pystr list \<Rightarrow> nat \<Rightarrow> pystr list list \<Rightarrow> (pystr \<times> real) list \<Rightarrow> py_error + (pystr \<times> real) list" where
  "score_docs self q_tokens i [] scores = Inr scores"
| "score_docs self q_tokens i (tokens # rest) scores =
     (case doc_score self tokens q_tokens 0 of
        Inl e \<Rightarrow> Inl e
      | Inr s \<Rightarrow>
          if 0 < s
          then (if i < length (bm_ids self)
                then score_docs self q_tokens (Suc i) rest (dict_set scores (bm_ids self ! i) s)
                else Inl IndexError)
          else score_docs self q_tokens (Suc i) rest scores)"

definition score :: "(pystr \<Rightarrow> pystr list) \<Rightarrow> BM25 \<Rightarrow> pystr \<Rightarrow> int \<Rightarrow> py_error + (pystr \<times> real) list" where
  "score tok self query top_k =
     (case score_docs self (tok query) 0 (bm_docs self) [] of
        Inl e \<Rightarrow> Inl e
      | Inr scores \<Rightarrow> Inr (slice_to top_k (sorted_desc snd scores)))"


subsection \<open>The BM25 formula\<close>

text \<open>
  The score as the spec states it: the number of documents that contain a term, the
  IDF \<open>log((N - df + 0.5) / (df + 0.5) + 1)\<close>, the average document length, and the sum
  over the query tokens that occur in the document.
\<close>

definition doc_freq :: "pystr list list \<Rightarrow> pystr \<Rightarrow> nat" where
  "doc_freq ds t = length (filter (\<lambda>d. t \<in> set d) ds)"

definition idf :: "nat \<Rightarrow> nat \<Rightarrow> real" where
  "idf n d = ln ((real n - real d + 0.5) / (real d + 0.5) + 1)"

definition avg_len :: "pystr list list \<Rightarrow> real" where
  "avg_len ds = (if ds = [] then 1 else real (sum_list (map length ds)) / real (length ds))"

definition bm25_weight :: "real \<Rightarrow> real \<Rightarrow> pystr list list \<Rightarrow> pystr list \<Rightarrow> pystr \<Rightarrow> real" where
  "bm25_weight k b' ds tokens qt =
     idf (length ds) (doc_freq ds qt) * (real (count_list tokens qt) * (k + 1))
       / (real (count_list tokens qt)
          + k * (1 - b' + b' * real (length tokens) / avg_len ds))"

definition bm25_formula :: "real \<Rightarrow> real \<Rightarrow> pystr list list \<Rightarrow> pystr list \<Rightarrow> pystr list \<Rightarrow> real" where
  "bm25_formula k b' ds tokens q =
     sum_list (map (bm25_weight k b' ds tokens) (filter (\<lambda>qt. qt \<in> set tokens) q))"

subsection \<open>The fitted index\<close>

lemma fold_count_distinct:
  "distinct xs \<Longrightarrow>
     fold (\<lambda>t d. d(t := d t + 1)) xs df t = (df :: pystr \<Rightarrow> nat) t + (if t \<in> set xs then 1 else 0)"
  by (induction xs arbitrary: df) auto

lemma count_doc_eq: "count_doc tokens df t = df t + (if t \<in> set tokens then 1 else 0)"
  using fold_count_distinct [of "remdups tokens" df t] by (simp add: count_doc_def)

lemma fold_count_doc: "fold count_doc ds df t = df t + doc_freq ds t"
  by (induction ds arbitrary: df) (simp_all add: doc_freq_def count_doc_eq)

lemma fit_fields:
  "bm_docs (fit tok self ds ids) = map tok ds"
  "bm_ids (fit tok self ds ids) = ids"
  "bm_N (fit tok self ds ids) = length ds"
  "bm_df (fit tok self ds ids) t = doc_freq (map tok ds) t"
  "bm_avgdl (fit tok self ds ids) = avg_len (map tok ds)"
  "bm_k1 (fit tok self ds ids) = bm_k1 self"
  "bm_b (fit tok self ds ids) = bm_b self"
  by (simp_all add: fit_def Let_def fold_count_doc avg_len_def)

lemma doc_freq_le: "doc_freq ds t \<le> length ds"
  by (simp add: doc_freq_def)

lemma idf_pos: "d \<le> n \<Longrightarrow> 0 < idf n d"
proof -
  assume "d \<le> n"
  then have "0 < (real n - real d + 0.5) / (real d + 0.5)"
    by (intro divide_pos_pos) simp_all
  then show ?thesis by (simp add: idf_def)
qed

lemma avg_len_pos:
  assumes "tokens \<in> set ds" and "tokens \<noteq> []"
  shows "0 < avg_len ds"
proof -
  have "length tokens \<le> sum_list (map length ds)"
    using assms(1) by (simp add: member_le_sum_list)
  with assms(2) have "0 < sum_list (map length ds)"
    by (cases tokens) auto
  moreover have "ds \<noteq> []" using assms(1) by auto
  ultimately show ?thesis by (simp add: avg_len_def)
qed


lemma count_list_pos: "x \<in> set xs \<Longrightarrow> 0 < count_list xs x"
  by (induction xs) auto

lemma bm25_denominator_pos:
  fixes k b' tf dl avg :: real
  assumes "0 \<le> k" and "0 \<le> b'" and "b' \<le> 1" and "0 < tf" and "0 \<le> dl" and "0 < avg"
  shows "0 < tf + k * (1 - b' + b' * dl / avg)"
proof -
  have "0 \<le> b' * dl / avg" using assms by simp
  then have "0 \<le> 1 - b' + b' * dl / avg" using assms(3) by simp
  then have "0 \<le> k * (1 - b' + b' * dl / avg)" using assms(1) by simp
  with assms(4) show ?thesis by simp
qed

lemma bm25_weight_pos:
  assumes "0 \<le> k" and "0 \<le> b'" and "b' \<le> 1" and "tokens \<in> set ds" and "qt \<in> set tokens"
  shows "0 < bm25_weight k b' ds tokens qt"
proof -
  have tf: "0 < real (count_list tokens qt)"
    using assms(5) by (simp add: count_list_pos)
  have ne: "tokens \<noteq> []" using assms(5) by auto
  have den: "0 < real (count_list tokens qt)
               + k * (1 - b' + b' * real (length tokens) / avg_len ds)"
    using assms(1-3) tf avg_len_pos [OF assms(4) ne] by (intro bm25_denominator_pos) simp_all
  have "0 < idf (length ds) (doc_freq ds qt) * (real (count_list tokens qt) * (k + 1))"
    using idf_pos [OF doc_freq_le, of ds qt] tf assms(1) by simp
  from this den show ?thesis
    unfolding bm25_weight_def by (rule divide_pos_pos)
qed

lemma bm25_term_fitted:
  assumes "0 \<le> bm_k1 self" and "0 \<le> bm_b self" and "bm_b self \<le> 1"
    and "tokens \<in> set (map tok ds)" and "qt \<in> set tokens"
  shows "bm25_term (fit tok self ds ids) tokens qt
           = Inr (bm25_weight (bm_k1 self) (bm_b self) (map tok ds) tokens qt)"
proof -
  let ?ds = "map tok ds"
  have tf: "0 < real (count_list tokens qt)"
    using assms(5) by (simp add: count_list_pos)
  have ne: "tokens \<noteq> []" using assms(5) by auto
  have avg: "0 < avg_len ?ds" using assms(4) ne by (rule avg_len_pos)
  have den: "0 < real (count_list tokens qt)
               + bm_k1 self * (1 - bm_b self + bm_b self * real (length tokens) / avg_len ?ds)"
    using assms(1-3) tf avg by (intro bm25_denominator_pos) simp_all
  have d: "real (doc_freq ?ds qt) + 0.5 \<noteq> 0"
    by (metis add_nonneg_pos less_numeral_extra(3) of_nat_0_le_iff half_gt_zero_iff zero_less_one
        divide_pos_pos zero_less_numeral)
  have "real (doc_freq ?ds qt) \<le> real (length ds)"
    using doc_freq_le [of ?ds qt] by simp
  then have "0 < (real (length ds) - real (doc_freq ?ds qt) + 0.5) / (real (doc_freq ?ds qt) + 0.5)"
    by (intro divide_pos_pos) simp_all
  then have r: "\<not> (real (length ds) - real (doc_freq ?ds qt) + 0.5) / (real (doc_freq ?ds qt) + 0.5) + 1 \<le> 0"
    by simp
  have a: "avg_len ?ds \<noteq> 0" using avg by simp
  have e: "real (count_list tokens qt)
               + bm_k1 self * (1 - bm_b self + bm_b self * real (length tokens) / avg_len ?ds) \<noteq> 0"
    using den by simp
  show ?thesis
    unfolding bm25_term_def Let_def fit_fields py_div_def py_log_def bm25_weight_def idf_def
    using d r a e by (simp only: if_False sum.case length_map)
qed

lemma doc_score_fitted:
  assumes "0 \<le> bm_k1 self" and "0 \<le> bm_b self" and "bm_b self \<le> 1"
    and "tokens \<in> set (map tok ds)"
  shows "doc_score (fit tok self ds ids) tokens q s
           = Inr (s + bm25_formula (bm_k1 self) (bm_b self) (map tok ds) tokens q)"
proof (induction q arbitrary: s)
  case Nil
  then show ?case by (simp add: bm25_formula_def)
next
  case (Cons qt q)
  show ?case
  proof (cases "qt \<in> set tokens")
    case True
    then have "count_list tokens qt \<noteq> 0" by (simp add: count_list_0_iff)
    then show ?thesis
      using True Cons.IH bm25_term_fitted [OF assms True, of ids]
      by (simp add: bm25_formula_def)
  next
    case False
    then have "count_list tokens qt = 0" by (simp add: count_list_0_iff)
    then show ?thesis
      using False Cons.IH by (simp add: bm25_formula_def)
  qed
qed

lemma bm25_formula_nonneg:
  assumes "0 \<le> k" and "0 \<le> b'" and "b' \<le> 1" and "tokens \<in> set ds"
  shows "0 \<le> bm25_formula k b' ds tokens q"
  unfolding bm25_formula_def
  by (rule sum_list_nonneg) (auto intro: less_imp_le bm25_weight_pos [OF assms])

lemma bm25_formula_Nil: "bm25_formula k b' ds tokens [] = 0"
  by (simp add: bm25_formula_def)


lemma set_dict_set_subset: "set (dict_set d k v) \<subseteq> insert (k, v) (set d)"
  by (induction d k v rule: dict_set.induct) auto

text \<open>
  The entries of \<open>scores\<close> after the first \<open>n\<close> documents: a document with a positive
  score enters under its id, and replaces what an earlier document has entered under
  the same id.
\<close>

definition scores_after ::
  "real \<Rightarrow> real \<Rightarrow> pystr list list \<Rightarrow> pystr list \<Rightarrow> pystr list \<Rightarrow> nat \<Rightarrow> (pystr \<times> real) set" where
  "scores_after k b' ds ids q n =
     {(ids ! i, bm25_formula k b' ds (ds ! i) q) | i.
        i < n \<and> 0 < bm25_formula k b' ds (ds ! i) q
        \<and> (\<forall>j<n. i < j \<and> ids ! j = ids ! i \<longrightarrow> \<not> 0 < bm25_formula k b' ds (ds ! j) q)}"

lemma scores_after_0: "scores_after k b' ds ids q 0 = {}"
  by (simp add: scores_after_def)

lemma scores_after_Suc:
  "scores_after k b' ds ids q (Suc n) =
     (if 0 < bm25_formula k b' ds (ds ! n) q
      then insert (ids ! n, bm25_formula k b' ds (ds ! n) q)
             {e \<in> scores_after k b' ds ids q n. fst e \<noteq> ids ! n}
      else scores_after k b' ds ids q n)"
proof (cases "0 < bm25_formula k b' ds (ds ! n) q")
  case True
  show ?thesis
  proof (intro set_eqI iffI)
    fix e assume "e \<in> scores_after k b' ds ids q (Suc n)"
    then obtain i where i: "e = (ids ! i, bm25_formula k b' ds (ds ! i) q)" "i < Suc n"
      "0 < bm25_formula k b' ds (ds ! i) q"
      "\<forall>j<Suc n. i < j \<and> ids ! j = ids ! i \<longrightarrow> \<not> 0 < bm25_formula k b' ds (ds ! j) q"
      unfolding scores_after_def by blast
    show "e \<in> (if 0 < bm25_formula k b' ds (ds ! n) q
      then insert (ids ! n, bm25_formula k b' ds (ds ! n) q)
             {e \<in> scores_after k b' ds ids q n. fst e \<noteq> ids ! n}
      else scores_after k b' ds ids q n)"
    proof (cases "i = n")
      case True
      with i(1) \<open>0 < bm25_formula k b' ds (ds ! n) q\<close> show ?thesis by simp
    next
      case False
      with i(2) have lt: "i < n" by simp
      with i(4) True have "ids ! n \<noteq> ids ! i" by auto
      moreover have "e \<in> scores_after k b' ds ids q n"
        unfolding scores_after_def using i lt by auto
      ultimately show ?thesis using True i(1) by simp
    qed
  next
    fix e assume "e \<in> (if 0 < bm25_formula k b' ds (ds ! n) q
      then insert (ids ! n, bm25_formula k b' ds (ds ! n) q)
             {e \<in> scores_after k b' ds ids q n. fst e \<noteq> ids ! n}
      else scores_after k b' ds ids q n)"
    with True consider "e = (ids ! n, bm25_formula k b' ds (ds ! n) q)"
      | "e \<in> scores_after k b' ds ids q n" "fst e \<noteq> ids ! n"
      by auto
    then show "e \<in> scores_after k b' ds ids q (Suc n)"
    proof cases
      case 1
      with True show ?thesis unfolding scores_after_def by auto
    next
      case 2
      then obtain i where i: "e = (ids ! i, bm25_formula k b' ds (ds ! i) q)" "i < n"
        "0 < bm25_formula k b' ds (ds ! i) q"
        "\<forall>j<n. i < j \<and> ids ! j = ids ! i \<longrightarrow> \<not> 0 < bm25_formula k b' ds (ds ! j) q"
        unfolding scores_after_def by blast
      from 2(2) i(1) have "ids ! n \<noteq> ids ! i" by simp
      with i have "\<forall>j<Suc n. i < j \<and> ids ! j = ids ! i \<longrightarrow> \<not> 0 < bm25_formula k b' ds (ds ! j) q"
        by (auto simp: less_Suc_eq)
      with i show ?thesis unfolding scores_after_def by auto
    qed
  qed
next
  case False
  show ?thesis
  proof (intro set_eqI iffI)
    fix e assume "e \<in> scores_after k b' ds ids q (Suc n)"
    then obtain i where i: "e = (ids ! i, bm25_formula k b' ds (ds ! i) q)" "i < Suc n"
      "0 < bm25_formula k b' ds (ds ! i) q"
      "\<forall>j<Suc n. i < j \<and> ids ! j = ids ! i \<longrightarrow> \<not> 0 < bm25_formula k b' ds (ds ! j) q"
      unfolding scores_after_def by blast
    from i(2,3) False have "i < n" by (cases "i = n") auto
    with i have "e \<in> scores_after k b' ds ids q n"
      unfolding scores_after_def by auto
    with False show "e \<in> (if 0 < bm25_formula k b' ds (ds ! n) q
      then insert (ids ! n, bm25_formula k b' ds (ds ! n) q)
             {e \<in> scores_after k b' ds ids q n. fst e \<noteq> ids ! n}
      else scores_after k b' ds ids q n)" by simp
  next
    fix e assume "e \<in> (if 0 < bm25_formula k b' ds (ds ! n) q
      then insert (ids ! n, bm25_formula k b' ds (ds ! n) q)
             {e \<in> scores_after k b' ds ids q n. fst e \<noteq> ids ! n}
      else scores_after k b' ds ids q n)"
    with False have "e \<in> scores_after k b' ds ids q n" by simp
    then obtain i where i: "e = (ids ! i, bm25_formula k b' ds (ds ! i) q)" "i < n"
      "0 < bm25_formula k b' ds (ds ! i) q"
      "\<forall>j<n. i < j \<and> ids ! j = ids ! i \<longrightarrow> \<not> 0 < bm25_formula k b' ds (ds ! j) q"
      unfolding scores_after_def by blast
    with False have "\<forall>j<Suc n. i < j \<and> ids ! j = ids ! i \<longrightarrow> \<not> 0 < bm25_formula k b' ds (ds ! j) q"
      by (auto simp: less_Suc_eq)
    with i show "e \<in> scores_after k b' ds ids q (Suc n)"
      unfolding scores_after_def by auto
  qed
qed

lemma score_docs_entries:
  assumes "0 \<le> bm_k1 self" and "0 \<le> bm_b self" and "bm_b self \<le> 1"
    and "length ids = length ds"
  shows "distinct (map fst scores) \<Longrightarrow>
         set scores = scores_after (bm_k1 self) (bm_b self) (map tok ds) ids q (length pre) \<Longrightarrow>
         map tok ds = pre @ rest \<Longrightarrow> i = length pre \<Longrightarrow>
         \<exists>scores'. score_docs (fit tok self ds ids) q i rest scores = Inr scores'
            \<and> distinct (map fst scores')
            \<and> set scores' = scores_after (bm_k1 self) (bm_b self) (map tok ds) ids q (length ds)"
proof (induction rest arbitrary: pre i scores)
  case Nil
  then have "length pre = length ds"
    by (metis append_Nil2 length_map)
  with Nil show ?case by simp
next
  case (Cons tokens rest)
  let ?st = "fit tok self ds ids"
  let ?f = "bm25_formula (bm_k1 self) (bm_b self) (map tok ds) tokens q"
  have mem: "tokens \<in> set (map tok ds)"
    unfolding Cons.prems(3) by simp
  have ds: "doc_score ?st tokens q 0 = Inr ?f"
    using doc_score_fitted [OF assms(1-3) mem, of ids q 0] by simp
  have "length (map tok ds) = length (pre @ tokens # rest)"
    by (simp only: Cons.prems(3))
  then have len: "length ds = length pre + Suc (length rest)"
    by simp
  have i: "i < length ds" "map tok ds ! i = tokens"
    using len by (simp_all add: Cons.prems(3,4))
  have next_pre: "map tok ds = (pre @ [tokens]) @ rest" "Suc i = length (pre @ [tokens])"
    using Cons.prems(3,4) by simp_all
  have step: "scores_after (bm_k1 self) (bm_b self) (map tok ds) ids q (length (pre @ [tokens])) =
     (if 0 < ?f
      then insert (ids ! i, ?f)
             {e \<in> scores_after (bm_k1 self) (bm_b self) (map tok ds) ids q (length pre). fst e \<noteq> ids ! i}
      else scores_after (bm_k1 self) (bm_b self) (map tok ds) ids q (length pre))"
    using scores_after_Suc [of "bm_k1 self" "bm_b self" "map tok ds" ids q "length pre"] i(2)
    by (simp add: Cons.prems(4))
  show ?case
  proof (cases "0 < ?f")
    case True
    have d: "distinct (map fst (dict_set scores (ids ! i) ?f))"
      using Cons.prems(1) by (rule distinct_dict_set)
    have s: "set (dict_set scores (ids ! i) ?f)
               = scores_after (bm_k1 self) (bm_b self) (map tok ds) ids q (length (pre @ [tokens]))"
      unfolding step using True Cons.prems(2) set_dict_set [OF Cons.prems(1), of "ids ! i" ?f]
      by simp
    from Cons.IH [OF d s next_pre]
    show ?thesis
      using True i(1) assms(4) by (simp add: ds fit_fields)
  next
    case False
    have s: "set scores
               = scores_after (bm_k1 self) (bm_b self) (map tok ds) ids q (length (pre @ [tokens]))"
      unfolding step using False Cons.prems(2) by simp
    from Cons.IH [OF Cons.prems(1) s next_pre]
    show ?thesis
      using False by (simp add: ds)
  qed
qed


lemma scores_afterD:
  "e \<in> scores_after k b' ds ids q n \<Longrightarrow>
     \<exists>i. e = (ids ! i, bm25_formula k b' ds (ds ! i) q) \<and> i < n
         \<and> 0 < bm25_formula k b' ds (ds ! i) q"
  unfolding scores_after_def by blast

lemma scores_after_distinct_ids:
  assumes "distinct ids" and "n \<le> length ids"
  shows "scores_after k b' ds ids q n =
           {(ids ! i, bm25_formula k b' ds (ds ! i) q) | i.
              i < n \<and> 0 < bm25_formula k b' ds (ds ! i) q}"
proof -
  have "ids ! j \<noteq> ids ! i" if "i < j" "j < n" for i j
    using that assms by (simp add: nth_eq_iff_index_eq)
  then show ?thesis
    unfolding scores_after_def by blast
qed

text \<open>
  C6. For every corpus fitted with the default parameters (\<open>docs\<close> and \<open>ids\<close> of the
  same length) and every query, \<open>score(query, top_k)\<close> with \<open>top_k\<close> not negative
  returns, without raising, the first \<open>top_k\<close> entries of a list \<open>R\<close> that holds exactly
  the positively scoring documents, each id once, in order of non-increasing score:
  for every document whose BM25 score is positive, its id with that score (an id given
  to several documents stands for the last of them that scores). The score is computed
  with the IDF \<open>log((N - df + 0.5) / (df + 0.5) + 1)\<close>. So the result has at most
  \<open>top_k\<close> pairs, each the id and the positive score of a document, in order of
  non-increasing score; and a query without tokens gives the empty list.
\<close>

theorem bm25_score_properties:
  assumes "length ids = length ds" and "0 \<le> top_k"
  shows "\<exists>res R. score (tokenize isw lower) (fit (tokenize isw lower) (BM25_init 1.5 0.75) ds ids)
                   query top_k = Inr res
           \<and> res = take (nat top_k) R
           \<and> set R = scores_after 1.5 0.75 (map (tokenize isw lower) ds) ids
                       (tokenize isw lower query) (length ds)
           \<and> (distinct ids \<longrightarrow>
                set R = {(ids ! i, bm25_formula 1.5 0.75 (map (tokenize isw lower) ds)
                                     (tokenize isw lower (ds ! i)) (tokenize isw lower query)) | i.
                           i < length ds
                           \<and> 0 < bm25_formula 1.5 0.75 (map (tokenize isw lower) ds)
                                   (tokenize isw lower (ds ! i)) (tokenize isw lower query)})
           \<and> distinct (map fst R)
           \<and> sorted_wrt (\<lambda>x y. snd y \<le> snd x) R
           \<and> length res \<le> nat top_k
           \<and> (\<forall>e\<in>set res. 0 < snd e
                \<and> (\<exists>i<length ds. ids ! i = fst e
                      \<and> snd e = bm25_formula 1.5 0.75 (map (tokenize isw lower) ds)
                                  (tokenize isw lower (ds ! i)) (tokenize isw lower query)))
           \<and> sorted_wrt (\<lambda>x y. snd y \<le> snd x) res
           \<and> (tokenize isw lower query = [] \<longrightarrow> res = [])"
proof -
  let ?tok = "tokenize isw lower"
  let ?self = "BM25_init 1.5 0.75"
  let ?F = "scores_after 1.5 0.75 (map ?tok ds) ids (?tok query) (length ds)"
  have kb: "0 \<le> bm_k1 ?self" "0 \<le> bm_b ?self" "bm_b ?self \<le> 1" "bm_k1 ?self = 1.5" "bm_b ?self = 0.75"
    by (simp_all add: BM25_init_def)
  have "\<exists>scores. score_docs (fit ?tok ?self ds ids) (?tok query) 0 (map ?tok ds) [] = Inr scores
            \<and> distinct (map fst scores)
            \<and> set scores = scores_after (bm_k1 ?self) (bm_b ?self) (map ?tok ds) ids (?tok query) (length ds)"
    by (rule score_docs_entries [OF kb(1-3) assms(1), of "[]" ?tok "?tok query" "[]"])
      (simp_all add: scores_after_0)
  then obtain scores where sc:
    "score_docs (fit ?tok ?self ds ids) (?tok query) 0 (map ?tok ds) [] = Inr scores"
    "distinct (map fst scores)" "set scores = ?F"
    unfolding kb(4,5) by (elim exE conjE)
  let ?R = "sorted_desc snd scores"
  let ?res = "take (nat top_k) ?R"
  have r: "score ?tok (fit ?tok ?self ds ids) query top_k = Inr ?res"
    using sc(1) assms(2) by (simp add: score_def fit_fields slice_to_def)
  have sR: "set ?R = ?F"
    using sc(3) by simp
  have dR: "distinct (map fst ?R)"
    using sc(2) by (simp add: distinct_map_sorted_desc)
  have oR: "sorted_wrt (\<lambda>x y. snd y \<le> snd x) ?R"
    by (rule sorted_desc_sorted)
  have di: "distinct ids \<longrightarrow>
                set ?R = {(ids ! i, bm25_formula 1.5 0.75 (map ?tok ds) (?tok (ds ! i)) (?tok query)) | i.
                           i < length ds
                           \<and> 0 < bm25_formula 1.5 0.75 (map ?tok ds) (?tok (ds ! i)) (?tok query)}"
  proof
    assume "distinct ids"
    from scores_after_distinct_ids [OF this, of "length ds" "1.5" "0.75" "map ?tok ds" "?tok query"]
    have "?F = {(ids ! i, bm25_formula 1.5 0.75 (map ?tok ds) (map ?tok ds ! i) (?tok query)) | i.
                  i < length ds \<and> 0 < bm25_formula 1.5 0.75 (map ?tok ds) (map ?tok ds ! i) (?tok query)}"
      using assms(1) by simp
    also have "\<dots> = {(ids ! i, bm25_formula 1.5 0.75 (map ?tok ds) (?tok (ds ! i)) (?tok query)) | i.
                           i < length ds
                           \<and> 0 < bm25_formula 1.5 0.75 (map ?tok ds) (?tok (ds ! i)) (?tok query)}"
      by (intro Collect_cong ex_cong1) auto
    finally show "set ?R = {(ids ! i, bm25_formula 1.5 0.75 (map ?tok ds) (?tok (ds ! i)) (?tok query)) | i.
                           i < length ds
                           \<and> 0 < bm25_formula 1.5 0.75 (map ?tok ds) (?tok (ds ! i)) (?tok query)}"
      using sR by simp
  qed
  have l: "length ?res \<le> nat top_k"
    by simp
  have p: "\<forall>e\<in>set ?res. 0 < snd e
                \<and> (\<exists>i<length ds. ids ! i = fst e
                      \<and> snd e = bm25_formula 1.5 0.75 (map ?tok ds) (?tok (ds ! i)) (?tok query))"
  proof
    fix e assume "e \<in> set ?res"
    then have "e \<in> set ?R" by (rule in_set_takeD)
    then have "e \<in> ?F" by (simp only: sR)
    from scores_afterD [OF this]
    obtain i where "e = (ids ! i, bm25_formula 1.5 0.75 (map ?tok ds) (map ?tok ds ! i) (?tok query))"
      "i < length ds" "0 < bm25_formula 1.5 0.75 (map ?tok ds) (map ?tok ds ! i) (?tok query)"
      by (elim exE conjE)
    then show "0 < snd e
                \<and> (\<exists>i<length ds. ids ! i = fst e
                      \<and> snd e = bm25_formula 1.5 0.75 (map ?tok ds) (?tok (ds ! i)) (?tok query))"
      by (auto intro!: exI [of _ i])
  qed
  have o: "sorted_wrt (\<lambda>x y. snd y \<le> snd x) ?res"
    using oR by (rule sorted_wrt_take)
  have e: "?tok query = [] \<longrightarrow> ?res = []"
  proof
    assume "?tok query = []"
    then have "?F = {}"
      by (simp add: scores_after_def bm25_formula_Nil)
    with sR show "?res = []" by simp
  qed
  show ?thesis
    by (intro exI [of _ ?res] exI [of _ ?R] conjI r refl sR di dR oR l p o e)
qed


lemma sorted_pair:
  assumes "set R = {x, y}" and "distinct (map fst R)" and "fst x \<noteq> fst y"
    and "sorted_wrt (\<lambda>a b. snd b \<le> snd a) R" and "snd y < (snd x :: real)"
  shows "R = [x, y]"
proof -
  from assms(2) have d: "distinct R" by (simp add: distinct_map)
  from assms(3) have "x \<noteq> y" by auto
  with assms(1) have "card (set R) = 2" by simp
  with d have "length R = 2" by (simp add: distinct_card)
  then obtain p q where R: "R = [p, q]"
    by (cases R; cases "tl R") auto
  with assms(1) have "(p = x \<and> q = y) \<or> (p = y \<and> q = x)"
    by (auto simp: doubleton_eq_iff)
  moreover from assms(4) R have "snd q \<le> snd p" by simp
  ultimately show ?thesis using assms(5) R by auto
qed

lemma example_corpus_tokens:
  "tokenize ascii_word ascii_lower (str ''a b'') = [str ''a'', str ''b'']"
  "tokenize ascii_word ascii_lower (str ''B c c'') = [str ''b'', str ''c'', str ''c'']"
  "tokenize ascii_word ascii_lower (str ''b'') = [str ''b'']"
  "tokenize ascii_word ascii_lower (str ''?!'') = []"
  by (simp_all add: tokenize_def ascii_lower_def ascii_word_def str_def)

lemma example_corpus_scores:
  "bm25_formula 1.5 0.75 [[str ''a'', str ''b''], [str ''b'', str ''c'', str ''c'']]
     [str ''a'', str ''b''] [str ''b''] = ln (6 / 5) * (100 / 91)"
  "bm25_formula 1.5 0.75 [[str ''a'', str ''b''], [str ''b'', str ''c'', str ''c'']]
     [str ''b'', str ''c'', str ''c''] [str ''b''] = ln (6 / 5) * (100 / 109)"
  by (simp_all add: bm25_formula_def bm25_weight_def idf_def doc_freq_def avg_len_def str_def)

text \<open>
  Two documents that both hold the term \<open>b\<close>, the shorter one scoring higher: with
  \<open>top_k = 1\<close> the result is the shorter document with its score. A query without
  word characters gives the empty list.
\<close>

theorem bm25_score_properties_witness:
  "score (tokenize ascii_word ascii_lower)
        (fit (tokenize ascii_word ascii_lower) (BM25_init 1.5 0.75)
           [str ''a b'', str ''B c c''] [str ''1'', str ''2''])
        (str ''b'') 1 = Inr [(str ''1'', ln (6 / 5) * (100 / 91))]
   \<and> score (tokenize ascii_word ascii_lower)
        (fit (tokenize ascii_word ascii_lower) (BM25_init 1.5 0.75)
           [str ''a b'', str ''B c c''] [str ''1'', str ''2''])
        (str ''?!'') 1 = Inr []"
proof -
  let ?tok = "tokenize ascii_word ascii_lower"
  let ?ds = "[str ''a b'', str ''B c c'']"
  let ?ids = "[str ''1'', str ''2'']"
  have l: "length ?ids = length ?ds" by simp
  have k: "(0::int) \<le> 1" by simp
  have di: "distinct ?ids" by (simp add: str_def)
  have pos: "(0 :: real) < ln (6 / 5)" by simp
  from bm25_score_properties [OF l k, of ascii_word ascii_lower "str ''b''"] di
  obtain R where R:
    "score ?tok (fit ?tok (BM25_init 1.5 0.75) ?ds ?ids) (str ''b'') 1 = Inr (take (nat 1) R)"
    "set R = {(?ids ! i, bm25_formula 1.5 0.75 (map ?tok ?ds) (?tok (?ds ! i)) (?tok (str ''b''))) | i.
                i < length ?ds
                \<and> 0 < bm25_formula 1.5 0.75 (map ?tok ?ds) (?tok (?ds ! i)) (?tok (str ''b''))}"
    "distinct (map fst R)" "sorted_wrt (\<lambda>x y. snd y \<le> snd x) R"
    by blast
  define F where
    "F i = bm25_formula 1.5 0.75 (map ?tok ?ds) (?tok (?ds ! i)) (?tok (str ''b''))" for i
  have F0: "F 0 = ln (6 / 5) * (100 / 91)"
    unfolding F_def using example_corpus_scores(1) by (simp add: example_corpus_tokens)
  have F1: "F (Suc 0) = ln (6 / 5) * (100 / 109)"
    unfolding F_def using example_corpus_scores(2) by (simp add: example_corpus_tokens)
  have p: "0 < F 0" "0 < F (Suc 0)"
    using pos by (simp_all add: F0 F1)
  have "set R = {(?ids ! i, F i) | i. i < length ?ds \<and> 0 < F i}"
    using R(2) unfolding F_def .
  also have "\<dots> = {(?ids ! 0, F 0), (?ids ! Suc 0, F (Suc 0))}"
  proof (intro set_eqI iffI)
    fix e assume "e \<in> {(?ids ! i, F i) | i. i < length ?ds \<and> 0 < F i}"
    then show "e \<in> {(?ids ! 0, F 0), (?ids ! Suc 0, F (Suc 0))}"
      by (auto simp: less_Suc_eq)
  next
    fix e assume "e \<in> {(?ids ! 0, F 0), (?ids ! Suc 0, F (Suc 0))}"
    then have "e = (?ids ! 0, F 0) \<or> e = (?ids ! Suc 0, F (Suc 0))" by simp
    then show "e \<in> {(?ids ! i, F i) | i. i < length ?ds \<and> 0 < F i}"
    proof
      assume "e = (?ids ! 0, F 0)"
      with p(1) show ?thesis by (intro CollectI exI [of _ 0]) simp
    next
      assume "e = (?ids ! Suc 0, F (Suc 0))"
      with p(2) show ?thesis by (intro CollectI exI [of _ "Suc 0"]) simp
    qed
  qed
  finally have "set R = {(str ''1'', ln (6 / 5) * (100 / 91)), (str ''2'', ln (6 / 5) * (100 / 109))}"
    by (simp add: F0 F1)
  then have "R = [(str ''1'', ln (6 / 5) * (100 / 91)), (str ''2'', ln (6 / 5) * (100 / 109))]"
  proof (rule sorted_pair)
    show "distinct (map fst R)" by (rule R(3))
    show "sorted_wrt (\<lambda>a b. snd b \<le> snd a) R" by (rule R(4))
    show "fst (str ''1'', ln (6 / 5) * (100 / 91) :: real) \<noteq> fst (str ''2'', ln (6 / 5) * (100 / 109) :: real)"
      by (simp add: str_def)
    show "snd (str ''2'', ln (6 / 5) * (100 / 109) :: real) < snd (str ''1'', ln (6 / 5) * (100 / 91) :: real)"
      using pos by simp
  qed
  with R(1) have "score ?tok (fit ?tok (BM25_init 1.5 0.75) ?ds ?ids) (str ''b'') 1
                    = Inr [(str ''1'', ln (6 / 5) * (100 / 91))]"
    by simp
  moreover have "score ?tok (fit ?tok (BM25_init 1.5 0.75) ?ds ?ids) (str ''?!'') 1 = Inr []"
    using bm25_score_properties [OF l k, of ascii_word ascii_lower "str ''?!''"]
    by (auto simp: example_corpus_tokens)
  ultimately show ?thesis by simp
qed

section \<open>ConceptGraph\<close>

text \<open>
  \<^verbatim>\<open>
    @dataclass
    class ConceptGraph:
        edges: dict[str, list[tuple[str, float]]] = field(default_factory=lambda: defaultdict(list))
        aliases: dict[str, str] = field(default_factory=dict)

        def add_relation(self, a, b, weight=1.0):
            a, b = a.lower(), b.lower()
            self.edges[a].append((b, weight))
            self.edges[b].append((a, weight))

        def add_alias(self, alias, canonical):
            self.aliases[alias.lower()] = canonical.lower()
  \<close>
\<close>

record ConceptGraph =
  edges :: "(pystr \<times> (pystr \<times> real) list) list"
  aliases :: "(pystr \<times> pystr) list"

definition empty_graph :: ConceptGraph where
  "empty_graph = \<lparr> edges = [], aliases = [] \<rparr>"

definition add_relation :: "(pystr \<Rightarrow> pystr) \<Rightarrow> ConceptGraph \<Rightarrow> pystr \<Rightarrow> pystr \<Rightarrow> real \<Rightarrow> ConceptGraph" where
  "add_relation lower g a b' weight =
     (let a = lower a; b' = lower b';
          e1 = dict_set (edges g) a (dict_get_or (edges g) a [] @ [(b', weight)]);
          e2 = dict_set e1 b' (dict_get_or e1 b' [] @ [(a, weight)])
      in g \<lparr> edges := e2 \<rparr>)"

definition add_alias :: "(pystr \<Rightarrow> pystr) \<Rightarrow> ConceptGraph \<Rightarrow> pystr \<Rightarrow> pystr \<Rightarrow> ConceptGraph" where
  "add_alias lower g alias canonical =
     g \<lparr> aliases := dict_set (aliases g) (lower alias) (lower canonical) \<rparr>"

text \<open>
  \<open>re.findall(r"[@#]?\w+", s)\<close>: the maximal runs of word characters, each with the
  \<open>@\<close> or \<open>#\<close> that stands directly before it, if any.
\<close>

function sigil_words :: "(nat \<Rightarrow> bool) \<Rightarrow> pystr \<Rightarrow> pystr list" where
  "sigil_words isw [] = []"
| "sigil_words isw (c # cs) =
     (if isw c \<or> ((c = 64 \<or> c = 35) \<and> cs \<noteq> [] \<and> isw (hd cs))
      then (c # takeWhile isw cs) # sigil_words isw (dropWhile isw cs)
      else sigil_words isw cs)"
  by pat_completeness auto
termination
  by (relation "measure (\<lambda>(isw, s). length s)") (auto simp: less_Suc_eq_le length_dropWhile_le)

text \<open>
  \<^verbatim>\<open>
    def _collect_neighbors(self, concept, candidates, depth, min_weight, visited):
        if depth <= 0 or concept in visited:
            return
        visited.add(concept)
        for neighbor, weight in self.edges.get(concept, []):
            if weight >= min_weight:
                current = candidates.get(neighbor, 0.0)
                candidates[neighbor] = max(current, weight)
                if depth > 1:
                    self._collect_neighbors(
                        neighbor, candidates, depth - 1, min_weight * 0.7, visited)
  \<close>
  \<open>candidates\<close> and \<open>visited\<close> are mutated in place: the model passes both through. The
  depth is a count: \<open>collect_neighbors\<close> is called with \<open>nat depth\<close>, which is 0 for
  every \<open>depth <= 0\<close>.
\<close>

fun collect_neighbors ::
  "(pystr \<times> (pystr \<times> real) list) list \<Rightarrow> nat \<Rightarrow> pystr \<Rightarrow> real \<Rightarrow>
   (pystr \<times> real) list \<times> pystr list \<Rightarrow> (pystr \<times> real) list \<times> pystr list" where
  "collect_neighbors E 0 concept min_weight (candidates, visited) = (candidates, visited)"
| "collect_neighbors E (Suc d) concept min_weight (candidates, visited) =
     (if concept \<in> set visited then (candidates, visited)
      else fold (\<lambda>edge st.
                   if min_weight \<le> snd edge
                   then let cs = dict_set (fst st) (fst edge)
                                   (max (dict_get_or (fst st) (fst edge) 0) (snd edge))
                        in if 1 < Suc d
                           then collect_neighbors E d (fst edge) (min_weight * 0.7) (cs, snd st)
                           else (cs, snd st)
                   else st)
             (dict_get_or E concept []) (candidates, concept # visited))"

text \<open>
  \<^verbatim>\<open>
    def expand(self, query, max_expansions=6, min_weight=0.5, depth=1):
        query_lower = query.lower()
        query_tokens = set(re.findall(r"[@#]?\w+", query_lower))
        resolved = set()
        for token in query_tokens:
            canonical = self.aliases.get(token, token)
            resolved.add(canonical)
        candidates = {}
        for token in resolved:
            self._collect_neighbors(token, candidates, depth, min_weight, visited=set())
        for token in resolved | query_tokens:
            candidates.pop(token, None)
        ranked = sorted(candidates.items(), key=lambda x: x[1], reverse=True)
        return [concept for concept, _ in ranked[:max_expansions]]
  \<close>
  The order in which Python iterates over a \<open>set\<close> is not fixed by the language. It
  enters as the parameter \<open>iter\<close>, which lists the elements of the set built from a
  list.
\<close>

definition query_tokens :: "(nat \<Rightarrow> bool) \<Rightarrow> (pystr \<Rightarrow> pystr) \<Rightarrow> pystr \<Rightarrow> pystr list" where
  "query_tokens isw lower query = sigil_words isw (lower query)"

definition resolve :: "ConceptGraph \<Rightarrow> pystr \<Rightarrow> pystr" where
  "resolve g token = dict_get_or (aliases g) token token"

definition expand ::
  "(pystr list \<Rightarrow> pystr list) \<Rightarrow> (nat \<Rightarrow> bool) \<Rightarrow> (pystr \<Rightarrow> pystr) \<Rightarrow> ConceptGraph \<Rightarrow>
   pystr \<Rightarrow> int \<Rightarrow> real \<Rightarrow> int \<Rightarrow> pystr list" where
  "expand iter isw lower g query max_expansions min_weight depth =
     (let query_tokens = iter (query_tokens isw lower query);
          resolved = iter (map (resolve g) query_tokens);
          collected = fold (\<lambda>token candidates.
                              fst (collect_neighbors (edges g) (nat depth) token min_weight
                                     (candidates, [])))
                        resolved [];
          candidates = fold (\<lambda>token cs. dict_pop cs token) (iter (resolved @ query_tokens)) collected;
          ranked = sorted_desc snd candidates
      in map fst (slice_to max_expansions ranked))"


subsection \<open>Facts about \<open>expand\<close>\<close>

lemma collect_neighbors_distinct:
  "distinct (map fst cs) \<Longrightarrow> distinct (map fst (fst (collect_neighbors E d c mw (cs, vs))))"
proof (induction d arbitrary: c mw cs vs)
  case 0
  then show ?case by simp
next
  case (Suc d)
  let ?step = "\<lambda>edge st.
                   if mw \<le> snd edge
                   then let cs = dict_set (fst st) (fst edge)
                                   (max (dict_get_or (fst st) (fst edge) 0) (snd edge))
                        in if 1 < Suc d
                           then collect_neighbors E d (fst edge) (mw * 0.7) (cs, snd st)
                           else (cs, snd st)
                   else st"
  have "distinct (map fst (fst (fold ?step (dict_get_or E c []) (cs, c # vs))))"
  proof (rule fold_invariant [where P = "\<lambda>st. distinct (map fst (fst st))"])
    show "distinct (map fst (fst (cs, c # vs)))" using Suc.prems by simp
  next
    fix x :: "pystr \<times> real" and st :: "(pystr \<times> real) list \<times> pystr list"
    assume "distinct (map fst (fst st))"
    then have d: "distinct (map fst (dict_set (fst st) (fst x)
                     (max (dict_get_or (fst st) (fst x) 0) (snd x))))"
      by (rule distinct_dict_set)
    show "distinct (map fst (fst (?step x st)))"
      using d Suc.IH [OF d] \<open>distinct (map fst (fst st))\<close> by (simp add: Let_def)
  qed
  then show ?case using Suc.prems by simp
qed

lemma collected_distinct:
  "distinct (map fst cs) \<Longrightarrow>
   distinct (map fst (fold (\<lambda>token candidates.
       fst (collect_neighbors E d token mw (candidates, []))) seeds cs))"
  by (rule fold_invariant [where P = "\<lambda>cs. distinct (map fst cs)"])
    (simp_all add: collect_neighbors_distinct)

lemma distinct_pops:
  "distinct (map fst cs) \<Longrightarrow> distinct (map fst (fold (\<lambda>token cs. dict_pop cs token) ts cs))"
  by (rule fold_invariant [where P = "\<lambda>cs. distinct (map fst cs)"])
    (simp_all add: dict_pop_def distinct_map_filter)


text \<open>
  At depth 1 the walk from a seed records each edge of the seed whose weight meets
  \<open>min_weight\<close>, one after the other.
\<close>

definition record_edge :: "pystr \<times> real \<Rightarrow> (pystr \<times> real) list \<Rightarrow> (pystr \<times> real) list" where
  "record_edge edge cs = dict_set cs (fst edge) (max (dict_get_or cs (fst edge) 0) (snd edge))"

definition qualifying :: "ConceptGraph \<Rightarrow> real \<Rightarrow> pystr \<Rightarrow> (pystr \<times> real) list" where
  "qualifying g min_weight seed =
     filter (\<lambda>edge. min_weight \<le> snd edge) (dict_get_or (edges g) seed [])"

lemma depth_one_fold:
  "fold (\<lambda>edge st.
           if mw \<le> snd edge
           then let cs = dict_set (fst st) (fst edge)
                           (max (dict_get_or (fst st) (fst edge) 0) (snd edge))
                in if 1 < Suc 0 then collect_neighbors E 0 (fst edge) (mw * 0.7) (cs, snd st)
                   else (cs, snd st)
           else st) es (cs, vs)
   = (fold record_edge (filter (\<lambda>edge. mw \<le> snd edge) es) cs, vs)"
  by (induction es arbitrary: cs) (simp_all add: record_edge_def Let_def)

lemma collect_neighbors_depth_one:
  "fst (collect_neighbors (edges g) (Suc 0) seed mw (cs, [])) = fold record_edge (qualifying g mw seed) cs"
  by (simp add: depth_one_fold qualifying_def)

lemma collected_depth_one:
  "fold (\<lambda>token candidates. fst (collect_neighbors (edges g) (Suc 0) token mw (candidates, [])))
     seeds cs
   = fold record_edge (concat (map (qualifying g mw) seeds)) cs"
  by (induction seeds arbitrary: cs)
    (simp_all add: collect_neighbors_depth_one del: collect_neighbors.simps)

text \<open>The weights recorded for \<open>c\<close> by a list of edges.\<close>

definition weights_of :: "(pystr \<times> real) list \<Rightarrow> pystr \<Rightarrow> real list" where
  "weights_of ps c = map snd (filter (\<lambda>p. fst p = c) ps)"

lemma Max_insert_max:
  fixes a w :: real
  assumes "finite S"
  shows "Max (insert (max a w) S) = Max (insert a (insert w S))"
proof (cases "S = {}")
  case True
  then show ?thesis by (simp add: max.commute)
next
  case False
  then show ?thesis using assms by (simp add: max.assoc)
qed

lemma dict_get_record_edges:
  "dict_get (fold record_edge ps cs) c =
     (if weights_of ps c = [] then dict_get cs c
      else Some (Max (set (dict_get_or cs c 0 # weights_of ps c))))"
proof (induction ps arbitrary: cs)
  case Nil
  then show ?case by (simp add: weights_of_def)
next
  case (Cons p ps)
  let ?cs1 = "record_edge p cs"
  show ?case
  proof (cases "fst p = c")
    case True
    have g: "dict_get_or ?cs1 c 0 = max (dict_get_or cs c 0) (snd p)"
      by (simp add: record_edge_def True dict_get_or_def dict_get_dict_set)
    have w: "weights_of (p # ps) c = snd p # weights_of ps c"
      by (simp add: weights_of_def True)
    show ?thesis
    proof (cases "weights_of ps c = []")
      case e: True
      have "dict_get ?cs1 c = Some (max (dict_get_or cs c 0) (snd p))"
        by (simp add: record_edge_def True dict_get_dict_set)
      then show ?thesis
        using Cons.IH [of ?cs1] e by (simp add: w)
    next
      case False
      have "Max (insert (max (dict_get_or cs c 0) (snd p)) (set (weights_of ps c)))
              = Max (insert (dict_get_or cs c 0) (insert (snd p) (set (weights_of ps c))))"
        by (rule Max_insert_max) simp
      then show ?thesis
        using Cons.IH [of ?cs1] False by (simp add: w g)
    qed
  next
    case False
    have "dict_get ?cs1 c = dict_get cs c"
      using False by (simp add: record_edge_def dict_get_dict_set)
    moreover from this have "dict_get_or ?cs1 c 0 = dict_get_or cs c 0"
      by (simp add: dict_get_or_def)
    moreover have "weights_of (p # ps) c = weights_of ps c"
      using False by (simp add: weights_of_def)
    ultimately show ?thesis
      using Cons.IH [of ?cs1] by simp
  qed
qed

lemma set_pops:
  "set (fold (\<lambda>token cs. dict_pop cs token) ts cs) = {e \<in> set cs. fst e \<notin> set ts}"
  by (induction ts arbitrary: cs) (auto simp: dict_pop_def)

text \<open>
  The weights of the edges from a seed to \<open>c\<close> that meet \<open>min_weight\<close>, and the
  candidates at depth 1: every concept that such an edge reaches, with the maximum of
  these weights.
\<close>

definition seed_weights :: "ConceptGraph \<Rightarrow> real \<Rightarrow> pystr set \<Rightarrow> pystr \<Rightarrow> real set" where
  "seed_weights g min_weight seeds c =
     {w. \<exists>s\<in>seeds. (c, w) \<in> set (dict_get_or (edges g) s []) \<and> min_weight \<le> w}"

lemma recorded_depth_one_iff:
  assumes "0 \<le> mw"
  shows "(c, w) \<in> set (fold record_edge (concat (map (qualifying g mw) seeds)) [])
           \<longleftrightarrow> seed_weights g mw (set seeds) c \<noteq> {} \<and> w = Max (seed_weights g mw (set seeds) c)"
proof -
  let ?ps = "concat (map (qualifying g mw) seeds)"
  let ?W = "seed_weights g mw (set seeds) c"
  have d: "distinct (map fst (fold record_edge ?ps []))"
    by (rule fold_invariant [where P = "\<lambda>cs. distinct (map fst cs)"])
      (simp_all add: record_edge_def distinct_dict_set)
  have W: "set (weights_of ?ps c) = ?W"
    by (auto simp: weights_of_def qualifying_def image_iff seed_weights_def)
  have mx: "Max (insert 0 ?W) = Max ?W" if "?W \<noteq> {}"
  proof -
    have fin: "finite ?W" using W [symmetric] by simp
    then have "Max ?W \<in> ?W" using that by (rule Max_in)
    then have "0 \<le> Max ?W" using assms by (auto simp: seed_weights_def)
    moreover have "Max (insert 0 ?W) = max 0 (Max ?W)"
      using fin that by (rule Max_insert)
    ultimately show ?thesis by simp
  qed
  have get: "dict_get (fold record_edge ?ps []) c =
               (if ?W = {} then None else Some (Max ?W))"
    using dict_get_record_edges [of ?ps "[]" c] mx W
    by (auto simp: dict_get_or_def)
  show ?thesis
  proof
    assume "(c, w) \<in> set (fold record_edge ?ps [])"
    with d have "dict_get (fold record_edge ?ps []) c = Some w"
      by (simp add: dict_get_Some_iff)
    with get show "?W \<noteq> {} \<and> w = Max ?W"
      by (auto split: if_splits)
  next
    assume "?W \<noteq> {} \<and> w = Max ?W"
    with get have "dict_get (fold record_edge ?ps []) c = Some w" by simp
    then show "(c, w) \<in> set (fold record_edge ?ps [])"
      by (rule dict_get_in_set)
  qed
qed

text \<open>
  C7. Whatever the order in which Python iterates over its sets, for \<open>max_expansions\<close>
  and \<open>min_weight\<close> not negative (the defaults are 6 and 0.5) and every query, graph
  and depth: \<open>expand\<close> returns the concepts of the first \<open>max_expansions\<close> entries of a
  list \<open>R\<close> of (concept, recorded weight) pairs without repeated concepts, in order of
  non-increasing recorded weight, none of them a token of the query or an
  alias-resolved seed; so it returns at most \<open>max_expansions\<close> terms. At the default
  depth 1, \<open>R\<close> holds exactly the candidates: every concept that is neither a token nor
  a seed and that some seed reaches by an edge whose weight meets \<open>min_weight\<close>, with
  the maximum of the weights of these edges as its recorded weight.
\<close>

theorem expand_properties:
  assumes "\<forall>xs. set (iter xs) = set xs" and "0 \<le> max_expansions" and "0 \<le> min_weight"
  shows "length (expand iter isw lower g query max_expansions min_weight depth) \<le> nat max_expansions
     \<and> set (expand iter isw lower g query max_expansions min_weight depth)
         \<inter> (set (query_tokens isw lower query) \<union> resolve g ` set (query_tokens isw lower query)) = {}
     \<and> (\<exists>R. expand iter isw lower g query max_expansions min_weight depth
              = map fst (take (nat max_expansions) R)
            \<and> distinct (map fst R)
            \<and> sorted_wrt (\<lambda>x y. snd y \<le> snd x) R
            \<and> fst ` set R \<inter> (set (query_tokens isw lower query)
                               \<union> resolve g ` set (query_tokens isw lower query)) = {}
            \<and> (depth = 1 \<longrightarrow>
                 set R = {(c, w).
                    c \<notin> set (query_tokens isw lower query)
                              \<union> resolve g ` set (query_tokens isw lower query)
                    \<and> seed_weights g min_weight (resolve g ` set (query_tokens isw lower query)) c \<noteq> {}
                    \<and> w = Max (seed_weights g min_weight
                                  (resolve g ` set (query_tokens isw lower query)) c)}))"
proof -
  let ?qt = "iter (query_tokens isw lower query)"
  let ?rs = "iter (map (resolve g) ?qt)"
  let ?collected = "fold (\<lambda>token candidates.
                      fst (collect_neighbors (edges g) (nat depth) token min_weight (candidates, [])))
                    ?rs []"
  let ?cands = "fold (\<lambda>token cs. dict_pop cs token) (iter (?rs @ ?qt)) ?collected"
  let ?R = "sorted_desc snd ?cands"
  let ?T = "set (query_tokens isw lower query) \<union> resolve g ` set (query_tokens isw lower query)"
  have ex: "expand iter isw lower g query max_expansions min_weight depth
              = map fst (take (nat max_expansions) ?R)"
    using assms(2) by (simp add: expand_def Let_def slice_to_def)
  have qt: "set ?qt = set (query_tokens isw lower query)"
    using assms(1) by simp
  have rs: "set ?rs = resolve g ` set (query_tokens isw lower query)"
    using assms(1) by simp
  have pops: "set (iter (?rs @ ?qt)) = ?T"
    using assms(1) by auto
  have len: "length (map fst (take (nat max_expansions) ?R)) \<le> nat max_expansions"
    by simp
  have sc: "set ?cands = {e \<in> set ?collected. fst e \<notin> ?T}"
    unfolding set_pops pops ..
  then have exclR: "fst ` set ?R \<inter> ?T = {}"
    by auto
  have "set (take (nat max_expansions) ?R) \<subseteq> set ?R"
    by (rule set_take_subset)
  then have "set (map fst (take (nat max_expansions) ?R)) \<subseteq> fst ` set ?R"
    unfolding set_map by (rule image_mono)
  with exclR have excl: "set (map fst (take (nat max_expansions) ?R)) \<inter> ?T = {}"
    by blast
  have "distinct (map fst ?cands)"
    by (intro distinct_pops collected_distinct) simp
  then have dist: "distinct (map fst ?R)"
    by (simp add: distinct_map_sorted_desc)
  have ord: "sorted_wrt (\<lambda>x y. snd y \<le> snd x) ?R"
    by (rule sorted_desc_sorted)
  have rec: "depth = 1 \<longrightarrow>
                 set ?R = {(c, w). c \<notin> ?T
                    \<and> seed_weights g min_weight (resolve g ` set (query_tokens isw lower query)) c \<noteq> {}
                    \<and> w = Max (seed_weights g min_weight
                                  (resolve g ` set (query_tokens isw lower query)) c)}"
  proof
    assume d: "depth = 1"
    have c1: "?collected = fold record_edge (concat (map (qualifying g min_weight) ?rs)) []"
      unfolding d by (simp add: collected_depth_one del: collect_neighbors.simps)
    have "(c, w) \<in> set ?collected \<longleftrightarrow>
            seed_weights g min_weight (resolve g ` set (query_tokens isw lower query)) c \<noteq> {}
            \<and> w = Max (seed_weights g min_weight (resolve g ` set (query_tokens isw lower query)) c)"
      for c w
      unfolding c1 recorded_depth_one_iff [OF assms(3)] rs ..
    then show "set ?R = {(c, w). c \<notin> ?T
                    \<and> seed_weights g min_weight (resolve g ` set (query_tokens isw lower query)) c \<noteq> {}
                    \<and> w = Max (seed_weights g min_weight
                                  (resolve g ` set (query_tokens isw lower query)) c)}"
      using sc by auto
  qed
  show ?thesis
    unfolding ex
    by (intro conjI len excl exI [of _ ?R] refl dist ord exclR rec)
qed


text \<open>
  A part of the graph that \<open>get_swift_concept_graph\<close> builds:
  \<^verbatim>\<open>
    g.add_relation("mock", "test double", 1.0)
    g.add_relation("mock", "stub", 0.8)
    g.add_relation("mock", "dependency injection", 0.8)
    g.add_relation("dependency injection", "testability", 0.9)
    g.add_alias("di", "dependency injection")
  \<close>
\<close>

definition testing_graph :: ConceptGraph where
  "testing_graph =
     add_alias ascii_lower
       (add_relation ascii_lower
          (add_relation ascii_lower
             (add_relation ascii_lower
                (add_relation ascii_lower empty_graph (str ''mock'') (str ''test double'') 1.0)
                (str ''mock'') (str ''stub'') 0.8)
             (str ''mock'') (str ''dependency injection'') 0.8)
          (str ''dependency injection'') (str ''testability'') 0.9)
       (str ''di'') (str ''dependency injection'')"

lemma testing_graph_eq:
  "testing_graph =
     \<lparr> edges = [(str ''mock'', [(str ''test double'', 1), (str ''stub'', 0.8),
                                  (str ''dependency injection'', 0.8)]),
                (str ''test double'', [(str ''mock'', 1)]),
                (str ''stub'', [(str ''mock'', 0.8)]),
                (str ''dependency injection'', [(str ''mock'', 0.8), (str ''testability'', 0.9)]),
                (str ''testability'', [(str ''dependency injection'', 0.9)])],
       aliases = [(str ''di'', str ''dependency injection'')] \<rparr>"
  by (simp add: testing_graph_def add_alias_def add_relation_def empty_graph_def ascii_lower_def
      dict_get_or_def str_def Let_def)

lemma testing_tokens:
  "query_tokens ascii_word ascii_lower (str ''DI mock'') = [str ''di'', str ''mock'']"
  by (simp add: query_tokens_def ascii_lower_def ascii_word_def str_def)

text \<open>
  \<open>expand("DI mock", max_expansions=2)\<close>: the alias \<open>di\<close> resolves to the seed
  \<open>dependency injection\<close>; the seeds reach \<open>mock\<close> (0.8), \<open>testability\<close> (0.9),
  \<open>test double\<close> (1.0), \<open>stub\<close> (0.8) and \<open>dependency injection\<close> (0.8); the token
  \<open>mock\<close> and the seed \<open>dependency injection\<close> are removed; the two heaviest of the
  rest are returned.
\<close>

theorem expand_properties_witness:
  "expand remdups ascii_word ascii_lower testing_graph (str ''DI mock'') 2 0.5 1
     = [str ''test double'', str ''testability'']
   \<and> length (expand remdups ascii_word ascii_lower testing_graph (str ''DI mock'') 2 0.5 1) \<le> 2
   \<and> set (expand remdups ascii_word ascii_lower testing_graph (str ''DI mock'') 2 0.5 1)
        \<inter> {str ''di'', str ''mock'', str ''dependency injection''} = {}"
proof -
  have i: "\<forall>xs :: pystr list. set (remdups xs) = set xs" by simp
  have m: "(0 :: int) \<le> 2" by simp
  have w: "(0 :: real) \<le> 0.5" by simp
  have r: "resolve testing_graph ` set [str ''di'', str ''mock'']
             = {str ''dependency injection'', str ''mock''}"
    unfolding testing_graph_eq by (simp add: resolve_def dict_get_or_def str_def)
  note t = expand_properties [OF i m w, of ascii_word ascii_lower testing_graph
        "str ''DI mock''" 1]
  from t have "length (expand remdups ascii_word ascii_lower testing_graph (str ''DI mock'') 2 0.5 1)
       \<le> nat 2"
    by blast
  moreover from t have "set (expand remdups ascii_word ascii_lower testing_graph (str ''DI mock'') 2 0.5 1)
        \<inter> (set [str ''di'', str ''mock''] \<union> resolve testing_graph ` set [str ''di'', str ''mock'']) = {}"
    unfolding testing_tokens by blast
  moreover have "expand remdups ascii_word ascii_lower testing_graph (str ''DI mock'') 2 0.5 1
     = [str ''test double'', str ''testability'']"
    unfolding expand_def testing_tokens testing_graph_eq
    by (simp add: resolve_def dict_get_or_def str_def dict_pop_def sorted_desc_def slice_to_def Let_def)
  ultimately show ?thesis
    unfolding r by auto
qed

section \<open>The query cache\<close>

text \<open>The dataclass \<open>SearchResponse\<close>.\<close>

record SearchResponse =
  r_query :: pystr
  r_results :: "SearchResult list"
  r_skills_used :: "pystr list"
  r_time_ms :: real
  from_cache :: bool
  expanded_terms :: "pystr list option"

text \<open>
  \<open>self._cache\<close> maps a query to a \<open>SearchResponse\<close> object, and \<open>search\<close> returns such an
  object: the same object can be held by the cache and by a caller. So the model has a
  store of response objects (\<open>heap\<close>, an object's address being its index) and the cache
  maps a query to an address.
\<close>

record CacheState =
  heap :: "SearchResponse list"
  cache :: "(pystr \<times> nat) list"

definition empty_cache :: CacheState where
  "empty_cache = \<lparr> heap = [], cache = [] \<rparr>"

text \<open>
  What \<open>search\<close> uses besides the cache: the two configuration values, the float
  arithmetic of the runtime, the embedding provider's \<open>embed_query\<close> (it can raise),
  and the stages from query expansion to the truncation to \<open>top_k\<close>, which give the
  results, the skills used, the time and the expanded terms of a new response, or raise.
\<close>

record SearchEnv =
  cache_enabled :: bool
  cache_similarity :: pyfloat
  arith :: float_arith
  embed_query :: "pystr \<Rightarrow> py_error + pyfloat list"
  run_pipeline :: "pystr \<Rightarrow> py_error + SearchResult list \<times> pystr list \<times> real \<times> pystr list option"

text \<open>
  \<^verbatim>\<open>
    def _check_cache(self, query):
        if query in self._cache:
            return self._cache[query]
        if not self._cache:
            return None
        try:
            q_emb = self._embedder.embed_query(query)
            best_sim = 0.0
            best_resp = None
            for cached_q, resp in self._cache.items():
                c_emb = self._embedder.embed_query(cached_q)
                sim = self._cosine(q_emb, c_emb)
                if sim > best_sim:
                    best_sim = sim
                    best_resp = resp
            if best_sim >= self.config.cache_similarity:
                return best_resp
        except Exception:
            pass
        return None
  \<close>
\<close>

fun best_match ::
  "SearchEnv \<Rightarrow> pyfloat list \<Rightarrow> (pystr \<times> nat) list \<Rightarrow> pyfloat \<times> nat option \<Rightarrow>
   py_error + pyfloat \<times> nat option" where
  "best_match env q_emb [] best = Inr best"
| "best_match env q_emb ((cached_q, resp) # items) (best_sim, best_resp) =
     (case embed_query env cached_q of
        Inl e \<Rightarrow> Inl e
      | Inr c_emb \<Rightarrow>
          (case cosine (arith env) q_emb c_emb of
             Inl e \<Rightarrow> Inl e
           | Inr sim \<Rightarrow>
               if fless best_sim sim then best_match env q_emb items (sim, Some resp)
               else best_match env q_emb items (best_sim, best_resp)))"

definition check_cache :: "SearchEnv \<Rightarrow> CacheState \<Rightarrow> pystr \<Rightarrow> nat option" where
  "check_cache env st query =
     (case dict_get (cache st) query of
        Some resp \<Rightarrow> Some resp
      | None \<Rightarrow>
          if cache st = [] then None
          else (case embed_query env query of
                  Inl e \<Rightarrow> None
                | Inr q_emb \<Rightarrow>
                    (case best_match env q_emb (cache st) (Fin 0, None) of
                       Inl e \<Rightarrow> None
                     | Inr (best_sim, best_resp) \<Rightarrow>
                         if fle (cache_similarity env) best_sim then best_resp else None)))"

text \<open>
  \<^verbatim>\<open>
    def search(self, query, top_k=None):
        self._ensure_indexed()
        top_k = top_k or self.config.top_k
        t0 = time.time()
        if self.config.cache_enabled:
            cached = self._check_cache(query)
            if cached:
                cached.from_cache = True
                return cached
        ...
        response = SearchResponse(query=query, results=final, skills_used=skills_used,
            time_ms=(time.time() - t0) * 1000, expanded_terms=expanded if expanded else None)
        if self.config.cache_enabled:
            self._cache[query] = response
        return response
  \<close>
  \<open>cached.from_cache = True\<close> assigns to the object that \<open>_check_cache\<close> returned, which
  is the object the cache holds. A new response is a new object; its \<open>from_cache\<close> is the
  dataclass default \<open>False\<close>. \<open>search\<close> returns the address of the response.
\<close>

definition search :: "SearchEnv \<Rightarrow> CacheState \<Rightarrow> pystr \<Rightarrow> CacheState \<times> (py_error + nat)" where
  "search env st query =
     (case (if cache_enabled env then check_cache env st query else None) of
        Some cached \<Rightarrow>
          (st \<lparr> heap := (heap st) [cached := (heap st ! cached) \<lparr> from_cache := True \<rparr>] \<rparr>,
           Inr cached)
      | None \<Rightarrow>
          (case run_pipeline env query of
             Inl e \<Rightarrow> (st, Inl e)
           | Inr (final, skills_used, time_ms, expanded) \<Rightarrow>
               let response = \<lparr> r_query = query, r_results = final, r_skills_used = skills_used,
                                r_time_ms = time_ms, from_cache = False,
                                expanded_terms = expanded \<rparr>;
                   addr = length (heap st);
                   st1 = st \<lparr> heap := heap st @ [response] \<rparr>;
                   st2 = (if cache_enabled env
                          then st1 \<lparr> cache := dict_set (cache st1) query addr \<rparr> else st1)
               in (st2, Inr addr)))"

text \<open>The response that the cache holds for a query.\<close>

definition stored :: "CacheState \<Rightarrow> pystr \<Rightarrow> SearchResponse option" where
  "stored st query = map_option (\<lambda>a. heap st ! a) (dict_get (cache st) query)"

text \<open>
  The cache is a \<open>dict\<close> (its keys are distinct) and every address in it is the address
  of an object.
\<close>

definition cache_ok :: "CacheState \<Rightarrow> bool" where
  "cache_ok st =
     (distinct (map fst (cache st)) \<and> list_all (\<lambda>entry. snd entry < length (heap st)) (cache st))"

text \<open>A cache hit: the cache is enabled and \<open>_check_cache\<close> finds a response.\<close>

definition cache_hit :: "SearchEnv \<Rightarrow> CacheState \<Rightarrow> pystr \<Rightarrow> bool" where
  "cache_hit env st query = (cache_enabled env \<and> check_cache env st query \<noteq> None)"

lemma best_match_ref:
  "best_match env q_emb items best = Inr (s, r) \<Longrightarrow>
     r = snd best \<or> (\<exists>a\<in>snd ` set items. r = Some a)"
proof (induction items arbitrary: best)
  case Nil
  then show ?case by simp
next
  case (Cons p items)
  obtain cached_q resp where p: "p = (cached_q, resp)" by (cases p)
  obtain best_sim best_resp where b: "best = (best_sim, best_resp)" by (cases best)
  from Cons.prems obtain sim where
    "(fless best_sim sim \<and> best_match env q_emb items (sim, Some resp) = Inr (s, r))
     \<or> (\<not> fless best_sim sim \<and> best_match env q_emb items (best_sim, best_resp) = Inr (s, r))"
    unfolding p b by (auto split: sum.splits if_splits)
  then show ?case
  proof
    assume "fless best_sim sim \<and> best_match env q_emb items (sim, Some resp) = Inr (s, r)"
    then have "r = snd (sim, Some resp) \<or> (\<exists>a\<in>snd ` set items. r = Some a)"
      using Cons.IH by blast
    then show ?thesis by (auto simp: p)
  next
    assume "\<not> fless best_sim sim \<and> best_match env q_emb items (best_sim, best_resp) = Inr (s, r)"
    then have "r = snd (best_sim, best_resp) \<or> (\<exists>a\<in>snd ` set items. r = Some a)"
      using Cons.IH by blast
    then show ?thesis by (auto simp: p b)
  qed
qed

lemma check_cache_ref: "check_cache env st query = Some a \<Longrightarrow> a \<in> snd ` set (cache st)"
proof -
  assume c: "check_cache env st query = Some a"
  show ?thesis
  proof (cases "dict_get (cache st) query")
    case (Some r)
    with c have "r = a" by (simp add: check_cache_def)
    with Some show ?thesis by (force dest: dict_get_in_set)
  next
    case None
    with c obtain q_emb s where "best_match env q_emb (cache st) (Fin 0, None) = Inr (s, Some a)"
      by (auto simp: check_cache_def split: if_splits sum.splits)
    from best_match_ref [OF this] show ?thesis by auto
  qed
qed


lemma search_hit:
  assumes "cache_hit env st query"
  shows "\<exists>a. check_cache env st query = Some a
           \<and> search env st query =
               (st \<lparr> heap := (heap st) [a := (heap st ! a) \<lparr> from_cache := True \<rparr>] \<rparr>, Inr a)"
  using assms by (auto simp: cache_hit_def search_def)

lemma search_miss:
  assumes "\<not> cache_hit env st query" and "search env st query = (st', Inr a)"
  shows "\<exists>response. \<not> from_cache response \<and> a = length (heap st)
           \<and> heap st' = heap st @ [response]
           \<and> cache st' = (if cache_enabled env then dict_set (cache st) query a else cache st)"
proof -
  have n: "(if cache_enabled env then check_cache env st query else None) = None"
    using assms(1) by (auto simp: cache_hit_def)
  from assms(2) obtain final skills_used time_ms expanded where
    p: "run_pipeline env query = Inr (final, skills_used, time_ms, expanded)"
    unfolding search_def n by (auto split: sum.splits)
  show ?thesis
    using assms(2) unfolding search_def n p by (auto simp: Let_def)
qed

text \<open>
  C2, as the code has it. A \<open>search\<close> that returns a response either hits the cache or
  misses it. On a miss the returned response is a new object with \<open>from_cache == False\<close>,
  and, the cache being enabled, it is the object stored for the query: a response is
  stored with \<open>from_cache == False\<close>; no other object changes. On a hit the returned
  object is an object that the cache holds, and its \<open>from_cache\<close> is \<open>True\<close> from then on,
  in the cache as well as in the hands of its callers; the cache itself and all other
  objects stay as they are.
\<close>

theorem search_from_cache_flag:
  assumes "cache_ok st" and "search env st query = (st', Inr a)"
  shows "cache_ok st' \<and> a < length (heap st')
     \<and> (if cache_hit env st query
         then from_cache (heap st' ! a)
              \<and> (\<exists>q. stored st' q = Some (heap st' ! a))
              \<and> cache st' = cache st
              \<and> (\<forall>a'. a' \<noteq> a \<longrightarrow> heap st' ! a' = heap st ! a')
         else \<not> from_cache (heap st' ! a)
              \<and> a = length (heap st)
              \<and> (cache_enabled env \<longrightarrow> stored st' query = Some (heap st' ! a))
              \<and> (\<forall>a'<length (heap st). heap st' ! a' = heap st ! a'))"
proof (cases "cache_hit env st query")
  case True
  from search_hit [OF True] assms(2)
  have c: "check_cache env st query = Some a"
    and st': "st' = st \<lparr> heap := (heap st) [a := (heap st ! a) \<lparr> from_cache := True \<rparr>] \<rparr>"
    by auto
  from check_cache_ref [OF c] obtain q where q: "(q, a) \<in> set (cache st)" by auto
  with assms(1) have a: "a < length (heap st)"
    by (auto simp: cache_ok_def list_all_iff)
  from q assms(1) have "dict_get (cache st) q = Some a"
    by (simp add: cache_ok_def dict_get_Some_iff)
  then have "stored st' q = Some (heap st' ! a)"
    by (simp add: stored_def st')
  moreover have "cache_ok st'"
    using assms(1) by (simp add: cache_ok_def st')
  moreover have "from_cache (heap st' ! a)"
    using a by (simp add: st')
  ultimately show ?thesis
    using True a by (auto simp: st')
next
  case False
  from search_miss [OF False assms(2)] obtain response where r:
    "\<not> from_cache response" "a = length (heap st)" "heap st' = heap st @ [response]"
    "cache st' = (if cache_enabled env then dict_set (cache st) query a else cache st)"
    by blast
  have ok: "cache_ok st'"
  proof (cases "cache_enabled env")
    case True
    have "set (dict_set (cache st) query a) \<subseteq> insert (query, a) (set (cache st))"
      by (rule set_dict_set_subset)
    moreover have "\<forall>entry\<in>insert (query, a) (set (cache st)). snd entry < length (heap st')"
      using assms(1) r(2,3) by (auto simp: cache_ok_def list_all_iff less_Suc_eq)
    ultimately have "list_all (\<lambda>entry. snd entry < length (heap st')) (dict_set (cache st) query a)"
      unfolding list_all_iff by blast
    then show ?thesis
      using assms(1) True r(4) by (simp add: cache_ok_def distinct_dict_set)
  next
    case False
    then show ?thesis
      using assms(1) r(3,4) by (auto simp: cache_ok_def list_all_iff)
  qed
  have "cache_enabled env \<longrightarrow> stored st' query = Some (heap st' ! a)"
    using r by (simp add: stored_def dict_get_dict_set)
  then show ?thesis
    using False ok r by (simp add: nth_append)
qed


text \<open>
  An engine with the cache enabled whose embedding provider and pipeline always answer,
  and the response it builds for a query.
\<close>

definition env0 :: SearchEnv where
  "env0 = \<lparr> cache_enabled = True, cache_similarity = Fin 0.92, arith = example_arith,
            embed_query = (\<lambda>q. Inr [Fin 1]), run_pipeline = (\<lambda>q. Inr ([], [], 0, None)) \<rparr>"

definition response0 :: "pystr \<Rightarrow> bool \<Rightarrow> SearchResponse" where
  "response0 q flag =
     \<lparr> r_query = q, r_results = [], r_skills_used = [], r_time_ms = 0, from_cache = flag,
       expanded_terms = None \<rparr>"

lemma first_search:
  "search env0 empty_cache (str ''q'')
     = (\<lparr> heap = [response0 (str ''q'') False], cache = [(str ''q'', 0)] \<rparr>, Inr 0)"
  by (simp add: search_def check_cache_def env0_def empty_cache_def response0_def Let_def)

lemma second_search:
  "search env0 \<lparr> heap = [response0 (str ''q'') False], cache = [(str ''q'', 0)] \<rparr> (str ''q'')
     = (\<lparr> heap = [response0 (str ''q'') True], cache = [(str ''q'', 0)] \<rparr>, Inr 0)"
  by (simp add: search_def check_cache_def env0_def response0_def)

text \<open>
  After \<open>search("q")\<close> twice on a new engine, the response that the cache holds for
  \<open>"q"\<close> has \<open>from_cache == True\<close>: the second call, a cache hit, has set the flag on
  the stored object.
\<close>

theorem stored_from_cache_counterexample:
  "stored (fst (search env0 (fst (search env0 empty_cache (str ''q''))) (str ''q''))) (str ''q'')
     = Some (response0 (str ''q'') True)
   \<and> from_cache (response0 (str ''q'') True)"
  by (simp add: first_search second_search stored_def) (simp add: response0_def)

theorem search_from_cache_flag_witness:
  "\<not> from_cache (heap (fst (search env0 empty_cache (str ''q''))) ! 0)
   \<and> from_cache (heap (fst (search env0 (fst (search env0 empty_cache (str ''q''))) (str ''q''))) ! 0)
   \<and> stored (fst (search env0 (fst (search env0 empty_cache (str ''q''))) (str ''q''))) (str ''q'')
       = Some (heap (fst (search env0 (fst (search env0 empty_cache (str ''q''))) (str ''q''))) ! 0)"
proof -
  let ?s1 = "\<lparr> heap = [response0 (str ''q'') False], cache = [(str ''q'', 0)] \<rparr>"
  let ?s2 = "\<lparr> heap = [response0 (str ''q'') True], cache = [(str ''q'', 0)] \<rparr>"
  have ok0: "cache_ok empty_cache"
    by (simp add: cache_ok_def empty_cache_def)
  have miss: "\<not> cache_hit env0 empty_cache (str ''q'')"
    by (simp add: cache_hit_def check_cache_def empty_cache_def)
  have ok1: "cache_ok ?s1"
    using search_from_cache_flag [OF ok0 first_search] by blast
  have hit: "cache_hit env0 ?s1 (str ''q'')"
    by (simp add: cache_hit_def check_cache_def env0_def)
  have "\<not> from_cache (heap ?s1 ! 0)"
    using search_from_cache_flag [OF ok0 first_search] miss by simp
  moreover have "from_cache (heap ?s2 ! 0)"
    using search_from_cache_flag [OF ok1 second_search] hit by simp
  moreover have "stored ?s2 (str ''q'') = Some (heap ?s2 ! 0)"
    by (simp add: stored_def)
  ultimately show ?thesis
    by (simp add: first_search second_search)
qed


section \<open>MaestroEngine.index\<close>



text \<open>
  The collaborators of \<open>index\<close>: the digest function and the window size of the
  chunker, the embedding provider's \<open>embed_documents\<close> (it can raise), the tokenizer of
  the BM25 index, and whether the store's \<open>delete\<close> raises (the call is wrapped in
  \<open>try\<close>/\<open>except\<close>).
\<close>

record IndexEnv =
  md5_hex :: "pystr \<Rightarrow> pystr"
  chunk_max_tokens :: int
  embed_documents :: "pystr list \<Rightarrow> py_error + pyfloat list list"
  tokenizer :: "pystr \<Rightarrow> pystr list"
  delete_raises :: bool

text \<open>The part of the engine's state that \<open>index\<close> reads and writes.\<close>

record EngineState =
  collection :: "collection option"
  fingerprints :: "(pystr \<times> SkillFingerprint) list"
  bm25 :: BM25
  indexed :: bool
  index_meta :: "(pystr list \<times> nat) option"





















subsection \<open>What one pass produces\<close>











subsection \<open>What the write to the store leaves\<close>












subsection \<open>Counting the stored chunks of a skill\<close>









subsection \<open>The registry and the store after a pass\<close>














subsection \<open>A skill whose file changes between two passes\<close>


























end
